theory Spec2Isabelle
  imports Complex_Main
begin

section \<open>Data model of \<open>value_backprop.py\<close>\<close>

text \<open>
  A \<open>Value\<close> object is a cell of a store. The store is the list of all \<open>Value\<close> objects
  in creation order, and the identity of an object is its index in that list, so two
  nodes with equal contents are still different nodes.

  The field \<open>data\<close> is taken over the real numbers: the arithmetic of Python's floats is
  exact here, with no rounding, and the \<open>OverflowError\<close> of \<open>**\<close> and \<open>math.exp\<close> is kept. The fields \<open>_op\<close> and
  \<open>label\<close> are strings that only \<open>__repr__\<close> reads; they are left out.

  The \<open>_backward\<close> closure of a node is a value of type \<open>closure\<close>: one constructor per
  \<open>def _backward\<close> of the source, carrying the variables that closure captures
  (\<open>self\<close>, \<open>other\<close>, \<open>out\<close>, and \<open>t\<close> for \<open>tanh\<close>), in that order.
\<close>

datatype closure =
    NoOp
  | AddBw nat nat nat
  | MulBw nat nat nat
  | PowBw nat real nat
  | TanhBw nat real nat
  | ExpBw nat nat

record node =
  data :: real
  grad :: real
  prev :: "nat list"
  bw :: closure

type_synonym heap = "node list"

text \<open>
  The exceptions the source can raise. \<open>ValueError\<close> is the one \<open>__pow__\<close> raises itself;
  the others come from the interpreter. \<open>ComplexResult\<close> is not an exception: Python's
  \<open>**\<close> answers a negative base with a fractional exponent by a complex number, which a
  real-valued \<open>data\<close> field cannot hold, so the model stops there.
\<close>

datatype py_error =
    ValueError
  | TypeError
  | ZeroDivisionError
  | OverflowError
  | AttributeError
  | RecursionError
  | ComplexResult

text \<open>An operand of an operator is a \<open>Value\<close> (by identity) or a raw number.\<close>

datatype operand = Node nat | Num real

section \<open>Python arithmetic on numbers\<close>

definition is_integral :: "real \<Rightarrow> bool" where
  "is_integral y = (y = of_int \<lfloor>y\<rfloor>)"

text \<open>
  Where the interpreter raises on a result too large for a double. A real of this
  magnitude or more rounds to no finite double; \<open>**\<close> and \<open>math.exp\<close> raise
  \<open>OverflowError\<close> there, while \<open>+\<close> and \<open>*\<close> do not raise.
\<close>

definition dbl_overflow :: real where
  "dbl_overflow = 2 ^ 1024 - 2 ^ 970"

definition checked :: "real \<Rightarrow> py_error + real" where
  "checked r = (if dbl_overflow \<le> \<bar>r\<bar> then Inl OverflowError else Inr r)"

text \<open>
  \<open>x ** y\<close> on numbers: \<open>x ** 0\<close> is 1, a zero base with a negative exponent raises
  \<open>ZeroDivisionError\<close>, a result out of range raises \<open>OverflowError\<close>, and a negative
  base with a fractional exponent leaves the reals.
\<close>

definition py_pow :: "real \<Rightarrow> real \<Rightarrow> py_error + real" where
  "py_pow x y =
     (if y = 0 then Inr 1
      else if x = 0 then (if y < 0 then Inl ZeroDivisionError else Inr 0)
      else if is_integral y then checked (x powi \<lfloor>y\<rfloor>)
      else if 0 < x then checked (x powr y)
      else Inl ComplexResult)"


section \<open>Construction of nodes\<close>

text \<open>
  \<open>set(_children)\<close>: duplicates collapse. The list is the order in which the set is later
  iterated; every theorem about the traversal holds for each order (see \<open>wf_heap\<close>).
\<close>

definition py_set :: "nat list \<Rightarrow> nat list" where
  "py_set xs = remdups xs"

definition Value_init :: "real \<Rightarrow> nat list \<Rightarrow> heap \<Rightarrow> nat \<times> heap" where
  "Value_init d children h =
     (length h, h @ [\<lparr>data = d, grad = 0, prev = py_set children, bw = NoOp\<rparr>])"

definition set_backward :: "nat \<Rightarrow> closure \<Rightarrow> heap \<Rightarrow> heap" where
  "set_backward out c h = h[out := (h ! out)\<lparr>bw := c\<rparr>]"

text \<open>\<open>other if isinstance(other, Value) else Value(other)\<close>\<close>

definition promote :: "operand \<Rightarrow> heap \<Rightarrow> nat \<times> heap" where
  "promote other h = (case other of Node n \<Rightarrow> (n, h) | Num c \<Rightarrow> Value_init c [] h)"

definition Value_add :: "nat \<Rightarrow> operand \<Rightarrow> heap \<Rightarrow> nat \<times> heap" where
  "Value_add self other0 h =
     (let (other, h1) = promote other0 h;
          (out, h2) = Value_init (data (h1 ! self) + data (h1 ! other)) [self, other] h1
      in (out, set_backward out (AddBw self other out) h2))"

definition Value_mul :: "nat \<Rightarrow> operand \<Rightarrow> heap \<Rightarrow> nat \<times> heap" where
  "Value_mul self other0 h =
     (let (other, h1) = promote other0 h;
          (out, h2) = Value_init (data (h1 ! self) * data (h1 ! other)) [self, other] h1
      in (out, set_backward out (MulBw self other out) h2))"



definition Value_pow :: "nat \<Rightarrow> operand \<Rightarrow> heap \<Rightarrow> py_error + (nat \<times> heap)" where
  "Value_pow self other h =
     (case other of
        Node _ \<Rightarrow> Inl ValueError
      | Num k \<Rightarrow>
          (case py_pow (data (h ! self)) k of
             Inl e \<Rightarrow> Inl e
           | Inr d \<Rightarrow>
               (let (out, h1) = Value_init d [self] h
                in Inr (out, set_backward out (PowBw self k out) h1))))"

text \<open>\<open>x ** y\<close> as the interpreter dispatches it: \<open>Value\<close> has no \<open>__rpow__\<close>.\<close>

definition py_pow_op :: "operand \<Rightarrow> operand \<Rightarrow> heap \<Rightarrow> py_error + (operand \<times> heap)" where
  "py_pow_op x y h =
     (case x of
        Node a \<Rightarrow> (case Value_pow a y h of Inl e \<Rightarrow> Inl e | Inr (r, h') \<Rightarrow> Inr (Node r, h'))
      | Num c \<Rightarrow>
          (case y of
             Node _ \<Rightarrow> Inl TypeError
           | Num d \<Rightarrow> (case py_pow c d of Inl e \<Rightarrow> Inl e | Inr r \<Rightarrow> Inr (Num r, h))))"

definition Value_truediv :: "nat \<Rightarrow> operand \<Rightarrow> heap \<Rightarrow> py_error + (nat \<times> heap)" where
  "Value_truediv self other h =
     (case py_pow_op other (Num (- 1)) h of
        Inl e \<Rightarrow> Inl e
      | Inr (p, h1) \<Rightarrow> Inr (Value_mul self p h1))"

definition Value_neg :: "nat \<Rightarrow> heap \<Rightarrow> nat \<times> heap" where
  "Value_neg self h = Value_mul self (Num (- 1)) h"

text \<open>Unary minus as the interpreter dispatches it.\<close>

definition py_neg :: "operand \<Rightarrow> heap \<Rightarrow> operand \<times> heap" where
  "py_neg x h =
     (case x of
        Node a \<Rightarrow> (let (r, h') = Value_neg a h in (Node r, h'))
      | Num c \<Rightarrow> (Num (- c), h))"

definition Value_sub :: "nat \<Rightarrow> operand \<Rightarrow> heap \<Rightarrow> nat \<times> heap" where
  "Value_sub self other h =
     (let (m, h1) = py_neg other h in Value_add self m h1)"





section \<open>The backward pass\<close>

definition add_grad :: "nat \<Rightarrow> real \<Rightarrow> heap \<Rightarrow> heap" where
  "add_grad i x h = h[i := (h ! i)\<lparr>grad := grad (h ! i) + x\<rparr>]"

text \<open>
  \<open>node._backward()\<close>: the body of the closure stored on node \<open>v\<close>, statement by
  statement. \<open>t ** 2\<close> is \<open>t\<^sup>2\<close> (an exponent 2 never raises). In the power rule
  \<open>self.data ** (other - 1)\<close> is evaluated before anything is stored, so an exception
  there leaves the store as it was.
\<close>

definition call_backward :: "heap \<Rightarrow> nat \<Rightarrow> py_error + heap" where
  "call_backward h v =
     (case bw (h ! v) of
        NoOp \<Rightarrow> Inr h
      | AddBw self other out \<Rightarrow>
          (let h1 = add_grad self (1 * grad (h ! out)) h
           in Inr (add_grad other (1 * grad (h1 ! out)) h1))
      | MulBw self other out \<Rightarrow>
          (let h1 = add_grad self (data (h ! other) * grad (h ! out)) h
           in Inr (add_grad other (data (h1 ! self) * grad (h1 ! out)) h1))
      | PowBw self other out \<Rightarrow>
          (case py_pow (data (h ! self)) (other - 1) of
             Inl e \<Rightarrow> Inl e
           | Inr p \<Rightarrow> Inr (add_grad self (other * p * grad (h ! out)) h))
      | TanhBw self t out \<Rightarrow> Inr (add_grad self ((1 - t\<^sup>2) * grad (h ! out)) h)
      | ExpBw self out \<Rightarrow> Inr (add_grad self (data (h ! out) * grad (h ! out)) h))"

text \<open>
  \<open>for node in reversed(topo): node._backward()\<close>. An exception stops the loop; the
  store keeps what the earlier iterations wrote.
\<close>

fun run_backward :: "nat list \<Rightarrow> heap \<Rightarrow> (py_error \<times> heap) + heap" where
  "run_backward [] h = Inr h"
| "run_backward (v # vs) h =
     (case call_backward h v of
        Inl e \<Rightarrow> Inl (e, h)
      | Inr h' \<Rightarrow> run_backward vs h')"

text \<open>
  \<open>build_topo\<close> is recursive in the source, and the interpreter bounds the depth of
  recursion. The first argument is the number of nested calls still allowed; \<open>None\<close> is
  the \<open>RecursionError\<close> of a deeper graph. The state is the pair \<open>(visited, topo)\<close>.
\<close>

fun for_each :: "('a \<Rightarrow> 's \<Rightarrow> 's option) \<Rightarrow> 'a list \<Rightarrow> 's \<Rightarrow> 's option" where
  "for_each f [] s = Some s"
| "for_each f (x # xs) s = (case f x s of None \<Rightarrow> None | Some s' \<Rightarrow> for_each f xs s')"

fun build_topo :: "nat \<Rightarrow> heap \<Rightarrow> nat \<Rightarrow> nat set \<times> nat list \<Rightarrow> (nat set \<times> nat list) option" where
  "build_topo 0 h v st = None"
| "build_topo (Suc limit) h v st =
     (case st of (visited, topo) \<Rightarrow>
        if v \<notin> visited then
          (case for_each (build_topo limit h) (prev (h ! v)) (insert v visited, topo) of
             None \<Rightarrow> None
           | Some (visited', topo') \<Rightarrow> Some (visited', topo' @ [v]))
        else Some (visited, topo))"

definition backward :: "nat \<Rightarrow> heap \<Rightarrow> nat \<Rightarrow> (py_error \<times> heap) + heap" where
  "backward limit h self =
     (case build_topo limit h self ({}, []) of
        None \<Rightarrow> Inl (RecursionError, h)
      | Some (visited, topo) \<Rightarrow>
          run_backward (rev topo) (h[self := (h ! self)\<lparr>grad := 1\<rparr>]))"

text \<open>The store a call leaves behind, whether it returned or raised.\<close>

definition final_heap :: "(py_error \<times> heap) + heap \<Rightarrow> heap" where
  "final_heap r = (case r of Inl (e, h) \<Rightarrow> h | Inr h \<Rightarrow> h)"

section \<open>Graphs built by the operators\<close>

text \<open>
  What every operator establishes for the node it returns: the closure stored on node
  \<open>i\<close> captures \<open>i\<close> itself as \<open>out\<close>, its operands were created earlier, and
  \<open>_prev\<close> is the set of the operands, listed once each in some order. A node made by
  \<open>Value(x)\<close> has no predecessors and the do-nothing closure.
\<close>

definition wf_node :: "heap \<Rightarrow> nat \<Rightarrow> bool" where
  "wf_node h i =
     (case bw (h ! i) of
        NoOp \<Rightarrow> prev (h ! i) = []
      | AddBw self other out \<Rightarrow>
          out = i \<and> self < i \<and> other < i \<and>
          distinct (prev (h ! i)) \<and> set (prev (h ! i)) = {self, other}
      | MulBw self other out \<Rightarrow>
          out = i \<and> self < i \<and> other < i \<and>
          distinct (prev (h ! i)) \<and> set (prev (h ! i)) = {self, other}
      | PowBw self k out \<Rightarrow> out = i \<and> self < i \<and> prev (h ! i) = [self]
      | TanhBw self t out \<Rightarrow> out = i \<and> self < i \<and> prev (h ! i) = [self]
      | ExpBw self out \<Rightarrow> out = i \<and> self < i \<and> prev (h ! i) = [self])"

definition wf_heap :: "heap \<Rightarrow> bool" where
  "wf_heap h = (\<forall>i < length h. wf_node h i)"

text \<open>The predecessor relation, and the nodes reachable from a node along it.\<close>

definition pred_rel :: "heap \<Rightarrow> (nat \<times> nat) set" where
  "pred_rel h = {(v, c). v < length h \<and> c \<in> set (prev (h ! v))}"

definition reach :: "heap \<Rightarrow> nat \<Rightarrow> nat set" where
  "reach h r = {n. (r, n) \<in> (pred_rel h)\<^sup>*}"

text \<open>
  The local partial derivatives: for each use of an operand by node \<open>v\<close>, the operand
  and the factor by which the closure of \<open>v\<close> scales \<open>out.grad\<close>. A node used twice has
  two entries. Where the power rule raises, the factor is irrelevant and set to 0.
\<close>

definition pow_rule :: "real \<Rightarrow> real \<Rightarrow> real" where
  "pow_rule x k = (case py_pow x (k - 1) of Inl e \<Rightarrow> 0 | Inr p \<Rightarrow> k * p)"

definition edges :: "heap \<Rightarrow> nat \<Rightarrow> (nat \<times> real) list" where
  "edges h v =
     (case bw (h ! v) of
        NoOp \<Rightarrow> []
      | AddBw self other out \<Rightarrow> [(self, 1), (other, 1)]
      | MulBw self other out \<Rightarrow> [(self, data (h ! other)), (other, data (h ! self))]
      | PowBw self k out \<Rightarrow> [(self, pow_rule (data (h ! self)) k)]
      | TanhBw self t out \<Rightarrow> [(self, 1 - t\<^sup>2)]
      | ExpBw self out \<Rightarrow> [(self, data (h ! out))])"

text \<open>
  The chain rule as a sum over paths: \<open>dpath h r n\<close> adds, over every path from \<open>r\<close> down
  to \<open>n\<close>, the product of the local partial derivatives along the path. The empty path
  from \<open>n\<close> to itself counts 1. Only edges to earlier nodes are followed, which in a
  graph built by the operators is every edge.
\<close>

function dpath :: "heap \<Rightarrow> nat \<Rightarrow> nat \<Rightarrow> real" where
  "dpath h r n =
     (if r = n then 1 else 0) +
     (\<Sum>(c, w) \<leftarrow> edges h r. if c < r then w * dpath h c n else 0)"
  by pat_completeness auto
termination
  by (relation "measure (\<lambda>(h, r, n). r)") auto

text \<open>Two stores with the same graph: they differ in the \<open>grad\<close> fields at most.\<close>

definition same_graph :: "heap \<Rightarrow> heap \<Rightarrow> bool" where
  "same_graph h h' =
     (length h' = length h \<and>
      (\<forall>u. data (h' ! u) = data (h ! u) \<and> prev (h' ! u) = prev (h ! u) \<and> bw (h' ! u) = bw (h ! u)))"

text \<open>
  A list in which every node stands after all of its predecessors (post-order), and a
  schedule for the closures read off such a list backwards.
\<close>

definition post_order :: "heap \<Rightarrow> nat list \<Rightarrow> bool" where
  "post_order h xs = (\<forall>i < length xs. set (prev (h ! (xs ! i))) \<subseteq> set (take i xs))"

text \<open>The closure of node \<open>v\<close> can run: its power rule, if any, does not raise.\<close>

definition rule_defined :: "heap \<Rightarrow> nat \<Rightarrow> bool" where
  "rule_defined h v =
     (case bw (h ! v) of
        PowBw self k out \<Rightarrow> (\<exists>p. py_pow (data (h ! self)) (k - 1) = Inr p)
      | _ \<Rightarrow> True)"

text \<open>What the closure of \<open>v\<close> adds to the \<open>grad\<close> of node \<open>u\<close>.\<close>

definition contrib :: "heap \<Rightarrow> nat \<Rightarrow> nat \<Rightarrow> real" where
  "contrib h v u = (\<Sum>(c, w) \<leftarrow> edges h v. if c = u then w * grad (h ! v) else 0)"

text \<open>A set of nodes that contains the predecessors of each of its members.\<close>

definition closed :: "heap \<Rightarrow> nat set \<Rightarrow> bool" where
  "closed h A = (\<forall>v \<in> A. v < length h \<longrightarrow> set (prev (h ! v)) \<subseteq> A)"

text \<open>
  A schedule for the closures: every node is listed once, before each of its
  predecessors, and no later node of the schedule reaches an earlier one.
\<close>

fun sched_ok :: "heap \<Rightarrow> nat list \<Rightarrow> bool" where
  "sched_ok h [] = True"
| "sched_ok h (v # vs) =
     (v < length h \<and> v \<notin> set vs \<and> set (prev (h ! v)) \<subseteq> set vs \<and>
      (\<forall>u \<in> set vs. v \<notin> reach h u) \<and> sched_ok h vs)"

definition set_grad_one :: "heap \<Rightarrow> nat \<Rightarrow> heap" where
  "set_grad_one h rt = h[rt := (h ! rt)\<lparr>grad := 1\<rparr>]"

definition ex_square :: heap where
  "ex_square = snd (Value_mul 0 (Node 0) (snd (Value_init 3 [] [])))"

definition ex_square_extra :: heap where
  "ex_square_extra = snd (Value_init 7 [] ex_square)"

definition ex_chain :: heap where
  "ex_chain = snd (Value_mul 2 (Num 1) (snd (Value_mul 0 (Num 1) (snd (Value_init 2 [] [])))))"

definition ex_chain_once :: heap where
  "ex_chain_once =
     [\<lparr>data = 2, grad = 1, prev = [], bw = NoOp\<rparr>,
      \<lparr>data = 1, grad = 2, prev = [], bw = NoOp\<rparr>,
      \<lparr>data = 2, grad = 1, prev = [0, 1], bw = MulBw 0 1 2\<rparr>,
      \<lparr>data = 1, grad = 2, prev = [], bw = NoOp\<rparr>,
      \<lparr>data = 2, grad = 1, prev = [2, 3], bw = MulBw 2 3 4\<rparr>]"

definition ex_chain_twice :: heap where
  "ex_chain_twice =
     [\<lparr>data = 2, grad = 3, prev = [], bw = NoOp\<rparr>,
      \<lparr>data = 1, grad = 6, prev = [], bw = NoOp\<rparr>,
      \<lparr>data = 2, grad = 2, prev = [0, 1], bw = MulBw 0 1 2\<rparr>,
      \<lparr>data = 1, grad = 4, prev = [], bw = NoOp\<rparr>,
      \<lparr>data = 2, grad = 1, prev = [2, 3], bw = MulBw 2 3 4\<rparr>]"

definition leaf :: "real \<Rightarrow> node" where
  "leaf c = \<lparr>data = c, grad = 0, prev = [], bw = NoOp\<rparr>"

definition ex_pow_zero :: heap where
  "ex_pow_zero = snd (projr (Value_pow 0 (Num 0) [leaf 0]))"

section \<open>Forward values as functions of one node\<close>









declare dpath.simps [simp del]


section \<open>Predecessor sets\<close>

lemma Value_add_prev:
  "Value_add a y h = (out, h') \<Longrightarrow> prev (h' ! out) = py_set [a, fst (promote y h)]"
  by (auto simp: Value_add_def Value_init_def set_backward_def Let_def split: prod.splits)

lemma Value_mul_prev:
  "Value_mul a y h = (out, h') \<Longrightarrow> prev (h' ! out) = py_set [a, fst (promote y h)]"
  by (auto simp: Value_mul_def Value_init_def set_backward_def Let_def split: prod.splits)


section \<open>Stores with the same graph\<close>

lemma add_grad_length [simp]: "length (add_grad i x h) = length h"
  by (simp add: add_grad_def)

lemma add_grad_nth:
  "add_grad i x h ! u =
     (if u = i \<and> i < length h then (h ! i)\<lparr>grad := grad (h ! i) + x\<rparr> else h ! u)"
  by (cases "i < length h") (simp_all add: add_grad_def list_update_beyond)

lemma add_grad_fields [simp]:
  "data (add_grad i x h ! u) = data (h ! u)"
  "prev (add_grad i x h ! u) = prev (h ! u)"
  "bw (add_grad i x h ! u) = bw (h ! u)"
  by (simp_all add: add_grad_nth)

lemma add_grad_grad:
  "i < length h \<Longrightarrow> grad (add_grad i x h ! u) = grad (h ! u) + (if u = i then x else 0)"
  by (simp add: add_grad_nth)

lemma same_graph_refl: "same_graph h h"
  by (simp add: same_graph_def)

lemma same_graph_trans: "same_graph h h1 \<Longrightarrow> same_graph h1 h2 \<Longrightarrow> same_graph h h2"
  unfolding same_graph_def by simp

lemma same_graph_add_grad: "same_graph h (add_grad i x h)"
  by (simp add: same_graph_def)

lemma same_graph_edges: "same_graph h h' \<Longrightarrow> edges h' v = edges h v"
  by (simp add: same_graph_def edges_def split: closure.splits)


lemma same_graph_wf_node: "same_graph h h' \<Longrightarrow> wf_node h' v = wf_node h v"
  by (simp add: same_graph_def wf_node_def split: closure.splits)


lemma same_graph_wf_heap: "same_graph h h' \<Longrightarrow> wf_heap h' = wf_heap h"
  using same_graph_wf_node[of h h'] by (simp add: wf_heap_def same_graph_def)


lemma same_graph_dpath: "same_graph h h' \<Longrightarrow> dpath h' r n = dpath h r n"
proof (induction h r n rule: dpath.induct)
  case (1 h r n)
  have IH: "\<And>c w. (c, w) \<in> set (edges h r) \<Longrightarrow> c < r \<Longrightarrow> dpath h' c n = dpath h c n"
    using "1.IH" "1.prems" by blast
  have "(\<Sum>(c, w) \<leftarrow> edges h r. if c < r then w * dpath h' c n else 0) =
        (\<Sum>(c, w) \<leftarrow> edges h r. if c < r then w * dpath h c n else 0)"
    by (rule arg_cong[where f = sum_list], rule map_cong[OF refl]) (auto simp: IH)
  then show ?case
    by (simp add: dpath.simps[of h' r n] dpath.simps[of h r n] same_graph_edges[OF "1.prems"])
qed


lemma same_graph_rule_defined: "same_graph h h' \<Longrightarrow> rule_defined h' v = rule_defined h v"
  by (simp add: same_graph_def rule_defined_def split: closure.splits)


lemma same_graph_pred_rel: "same_graph h h' \<Longrightarrow> pred_rel h' = pred_rel h"
  by (simp add: same_graph_def pred_rel_def)


lemma same_graph_reach: "same_graph h h' \<Longrightarrow> reach h' r = reach h r"
  using same_graph_pred_rel[of h h'] by (simp add: reach_def)


lemma same_graph_post_order: "same_graph h h' \<Longrightarrow> post_order h' xs = post_order h xs"
  by (simp add: same_graph_def post_order_def)

subsection \<open>One closure\<close>

lemma call_backward_effect:
  assumes "wf_node h v" "v < length h" "call_backward h v = Inr h'"
  shows "same_graph h h' \<and> (\<forall>u. grad (h' ! u) = grad (h ! u) + contrib h v u)"
proof (cases "bw (h ! v)")
  case NoOp
  with assms show ?thesis
    by (simp add: call_backward_def contrib_def edges_def same_graph_refl)
next
  case (AddBw s t out)
  with assms have *: "out = v" "s < v" "t < v" by (simp_all add: wf_node_def)
  with assms AddBw have h': "h' = add_grad t (grad (h ! v)) (add_grad s (grad (h ! v)) h)"
    by (simp add: call_backward_def Let_def add_grad_grad)
  have "same_graph h h'" unfolding h'
    by (rule same_graph_trans[OF same_graph_add_grad same_graph_add_grad])
  moreover have "\<forall>u. grad (h' ! u) = grad (h ! u) + contrib h v u"
    using * assms(2) AddBw unfolding h' by (simp add: contrib_def edges_def add_grad_grad)
  ultimately show ?thesis by simp
next
  case (MulBw s t out)
  with assms have *: "out = v" "s < v" "t < v" by (simp_all add: wf_node_def)
  with assms MulBw have h': "h' = add_grad t (data (h ! s) * grad (h ! v)) (add_grad s (data (h ! t) * grad (h ! v)) h)"
    by (simp add: call_backward_def Let_def add_grad_grad)
  have "same_graph h h'" unfolding h'
    by (rule same_graph_trans[OF same_graph_add_grad same_graph_add_grad])
  moreover have "\<forall>u. grad (h' ! u) = grad (h ! u) + contrib h v u"
    using * assms(2) MulBw unfolding h' by (simp add: contrib_def edges_def add_grad_grad)
  ultimately show ?thesis by simp
next
  case (PowBw s k out)
  with assms have *: "out = v" "s < v" by (simp_all add: wf_node_def)
  from assms PowBw obtain p where p: "py_pow (data (h ! s)) (k - 1) = Inr p"
    and h': "h' = add_grad s (k * p * grad (h ! out)) h"
    by (auto simp: call_backward_def split: sum.splits)
  have "same_graph h h'" unfolding h' by (rule same_graph_add_grad)
  moreover have "\<forall>u. grad (h' ! u) = grad (h ! u) + contrib h v u"
    using * assms(2) PowBw p unfolding h'
    by (simp add: contrib_def edges_def add_grad_grad pow_rule_def)
  ultimately show ?thesis by simp
next
  case (TanhBw s t out)
  with assms have *: "out = v" "s < v" by (simp_all add: wf_node_def)
  from assms TanhBw have h': "h' = add_grad s ((1 - t\<^sup>2) * grad (h ! out)) h"
    by (simp add: call_backward_def)
  have "same_graph h h'" unfolding h' by (rule same_graph_add_grad)
  moreover have "\<forall>u. grad (h' ! u) = grad (h ! u) + contrib h v u"
    using * assms(2) TanhBw unfolding h' by (simp add: contrib_def edges_def add_grad_grad)
  ultimately show ?thesis by simp
next
  case (ExpBw s out)
  with assms have *: "out = v" "s < v" by (simp_all add: wf_node_def)
  from assms ExpBw have h': "h' = add_grad s (data (h ! out) * grad (h ! out)) h"
    by (simp add: call_backward_def)
  have "same_graph h h'" unfolding h' by (rule same_graph_add_grad)
  moreover have "\<forall>u. grad (h' ! u) = grad (h ! u) + contrib h v u"
    using * assms(2) ExpBw unfolding h' by (simp add: contrib_def edges_def add_grad_grad)
  ultimately show ?thesis by simp
qed

lemma call_backward_defined:
  assumes "rule_defined h v"
  shows "\<exists>h'. call_backward h v = Inr h'"
  using assms
  by (cases "bw (h ! v)") (auto simp: call_backward_def rule_defined_def Let_def)

lemma call_backward_undefined:
  assumes "call_backward h v = Inl e"
  shows "\<not> rule_defined h v"
  using assms
  by (cases "bw (h ! v)") (auto simp: call_backward_def rule_defined_def Let_def split: sum.splits)

section \<open>Reachability and path sums\<close>

subsection \<open>Edges and predecessors\<close>

lemma wf_prev_less:
  assumes "wf_heap h" "v < length h" "c \<in> set (prev (h ! v))"
  shows "c < v"
proof -
  from assms(1,2) have "wf_node h v" by (simp add: wf_heap_def)
  with assms(3) show ?thesis
    by (cases "bw (h ! v)") (auto simp: wf_node_def)
qed

lemma wf_edges_prev:
  assumes "wf_heap h" "v < length h"
  shows "fst ` set (edges h v) = set (prev (h ! v))"
proof -
  from assms have "wf_node h v" by (simp add: wf_heap_def)
  then show ?thesis
    by (cases "bw (h ! v)") (auto simp: wf_node_def edges_def)
qed

lemma wf_edges_less:
  assumes "wf_heap h" "v < length h" "(c, w) \<in> set (edges h v)"
  shows "c < v" "c \<in> set (prev (h ! v))"
proof -
  from assms(3) have "c \<in> fst ` set (edges h v)" by force
  then show "c \<in> set (prev (h ! v))" using wf_edges_prev[OF assms(1,2)] by simp
  then show "c < v" using wf_prev_less[OF assms(1,2)] by simp
qed

subsection \<open>Reachability\<close>

lemma reach_refl: "r \<in> reach h r"
  by (simp add: reach_def)

lemma reach_step:
  "v \<in> reach h r \<Longrightarrow> v < length h \<Longrightarrow> c \<in> set (prev (h ! v)) \<Longrightarrow> c \<in> reach h r"
  unfolding reach_def pred_rel_def
  by (auto intro: rtrancl_into_rtrancl)

lemma reach_trans: "v \<in> reach h r \<Longrightarrow> n \<in> reach h v \<Longrightarrow> n \<in> reach h r"
  unfolding reach_def by auto

lemma reach_le:
  assumes "wf_heap h" "n \<in> reach h r"
  shows "n \<le> r"
proof -
  from assms(2) have "(r, n) \<in> (pred_rel h)\<^sup>*" by (simp add: reach_def)
  then show ?thesis
  proof (induction rule: rtrancl_induct)
    case base
    show ?case by simp
  next
    case (step y z)
    then have "y < length h" "z \<in> set (prev (h ! y))" by (simp_all add: pred_rel_def)
    then have "z < y" using wf_prev_less[OF assms(1)] by blast
    with step show ?case by simp
  qed
qed

lemma reach_unfold:
  "reach h r = insert r (if r < length h then (\<Union>c \<in> set (prev (h ! r)). reach h c) else {})"
proof (intro set_eqI iffI)
  fix n assume "n \<in> reach h r"
  then have "(r, n) \<in> (pred_rel h)\<^sup>*" by (simp add: reach_def)
  then show "n \<in> insert r (if r < length h then (\<Union>c \<in> set (prev (h ! r)). reach h c) else {})"
  proof (cases rule: converse_rtranclE)
    case base
    then show ?thesis by simp
  next
    case (step y)
    then show ?thesis by (auto simp: pred_rel_def reach_def)
  qed
next
  fix n assume "n \<in> insert r (if r < length h then (\<Union>c \<in> set (prev (h ! r)). reach h c) else {})"
  then show "n \<in> reach h r"
    by (auto simp: reach_refl split: if_splits
        intro: reach_trans[OF reach_step[OF reach_refl]])
qed

lemma closed_reach:
  assumes "closed h A" "r \<in> A" "n \<in> reach h r"
  shows "n \<in> A"
proof -
  from assms(3) have "(r, n) \<in> (pred_rel h)\<^sup>*" by (simp add: reach_def)
  then show ?thesis
  proof (induction rule: rtrancl_induct)
    case base
    show ?case by (rule assms(2))
  next
    case (step y z)
    then show ?case using assms(1) by (auto simp: pred_rel_def closed_def)
  qed
qed

lemma closed_reach_set: "closed h (reach h r)"
  by (auto simp: closed_def intro: reach_step)

subsection \<open>Path sums\<close>

lemma sum_list_all_zero:
  "(\<And>x. x \<in> set xs \<Longrightarrow> f x = (0::real)) \<Longrightarrow> sum_list (map f xs) = 0"
  by (induction xs) auto

lemma dpath_above: "r < n \<Longrightarrow> dpath h r n = 0"
proof (induction h r n rule: dpath.induct)
  case (1 h r n)
  have "(\<Sum>(c, w) \<leftarrow> edges h r. if c < r then w * dpath h c n else 0) = 0"
    by (rule sum_list_all_zero) (use 1 in \<open>auto split: if_splits\<close>)
  with 1(2) show ?case by (simp add: dpath.simps[of h r n])
qed

lemma dpath_self: "dpath h n n = 1"
proof -
  have "(\<Sum>(c, w) \<leftarrow> edges h n. if c < n then w * dpath h c n else 0) = 0"
    by (rule sum_list_all_zero) (auto simp: dpath_above split: if_splits)
  then show ?thesis by (simp add: dpath.simps[of h n n])
qed

lemma dpath_unfold:
  assumes "wf_heap h" "r < length h"
  shows "dpath h r n = (if r = n then 1 else 0) + (\<Sum>(c, w) \<leftarrow> edges h r. w * dpath h c n)"
proof -
  have "(\<Sum>(c, w) \<leftarrow> edges h r. if c < r then w * dpath h c n else 0) =
        (\<Sum>(c, w) \<leftarrow> edges h r. w * dpath h c n)"
    by (rule arg_cong[where f = sum_list], rule map_cong[OF refl])
       (use wf_edges_less(1)[OF assms] in auto)
  then show ?thesis by (simp add: dpath.simps[of h r n])
qed

lemma dpath_reach:
  assumes "wf_heap h"
  shows "r < length h \<Longrightarrow> dpath h r n \<noteq> 0 \<Longrightarrow> n \<in> reach h r"
proof (induction r rule: less_induct)
  case (less r)
  show ?case
  proof (cases "r = n")
    case True
    then show ?thesis by (simp add: reach_refl)
  next
    case False
    with less.prems have "(\<Sum>(c, w) \<leftarrow> edges h r. w * dpath h c n) \<noteq> 0"
      by (simp add: dpath_unfold[OF assms])
    then have "\<not> (\<forall>e \<in> set (edges h r). (case e of (c, w) \<Rightarrow> w * dpath h c n) = 0)"
      using sum_list_all_zero[of "edges h r" "\<lambda>(c, w). w * dpath h c n"] by blast
    then obtain c w where cw: "(c, w) \<in> set (edges h r)" "w * dpath h c n \<noteq> 0"
      by auto
    then have "c < r" "c \<in> set (prev (h ! r))"
      using wf_edges_less[OF assms less.prems(1)] by blast+
    moreover from cw have "dpath h c n \<noteq> 0" by simp
    ultimately have "n \<in> reach h c" using less.IH less.prems(1) by simp
    then show ?thesis
      using reach_trans[OF reach_step[OF reach_refl less.prems(1) \<open>c \<in> set (prev (h ! r))\<close>]]
      by blast
  qed
qed

subsection \<open>Sums of contributions\<close>

lemma sum_contrib:
  assumes "finite S" "\<forall>(c, w) \<in> set E. c \<in> S"
  shows "(\<Sum>u \<in> S. (\<Sum>(c, w) \<leftarrow> E. if c = u then w * x else 0) * f u) =
         (\<Sum>(c, w) \<leftarrow> E. w * x * (f c :: real))"
  using assms(2)
proof (induction E)
  case Nil
  show ?case by simp
next
  case (Cons e E)
  obtain c w where e: "e = (c, w)" by (cases e)
  with Cons.prems have c: "c \<in> S" by simp
  have "(\<Sum>u \<in> S. (if c = u then w * x else 0) * f u) = w * x * f c"
  proof -
    have "(\<Sum>u \<in> S. (if c = u then w * x else 0) * f u) =
          (\<Sum>u \<in> S. if u = c then w * x * f u else 0)"
      by (rule sum.cong) auto
    then show ?thesis using assms(1) c by (simp add: sum.delta)
  qed
  moreover have "(\<Sum>u \<in> S. (\<Sum>(c, w) \<leftarrow> E. if c = u then w * x else 0) * f u) =
         (\<Sum>(c, w) \<leftarrow> E. w * x * f c)"
    using Cons by simp
  ultimately show ?case
    by (simp add: e distrib_right sum.distrib)
qed

section \<open>Running the closures in a schedule\<close>

lemma same_graph_sched_ok: "same_graph h h' \<Longrightarrow> sched_ok h' vs = sched_ok h vs"
proof (induction vs)
  case Nil
  show ?case by simp
next
  case (Cons v vs)
  then show ?case
    using same_graph_reach[OF Cons.prems] by (simp add: same_graph_def)
qed

lemma sched_ok_valid: "sched_ok h vs \<Longrightarrow> u \<in> set vs \<Longrightarrow> u < length h"
  by (induction vs) auto

lemma contrib_zero:
  "(\<And>c w. (c, w) \<in> set (edges h v) \<Longrightarrow> c \<noteq> u) \<Longrightarrow> contrib h v u = 0"
  unfolding contrib_def by (rule sum_list_all_zero) auto

lemma sum_list_factor:
  "(\<Sum>(c, w) \<leftarrow> E. w * x * f c) = (x :: real) * (\<Sum>(c, w) \<leftarrow> E. w * f c)"
  by (induction E) (auto simp: algebra_simps)

lemma run_backward_sum:
  assumes "wf_heap h" "sched_ok h vs" "run_backward vs h = Inr h'"
  shows "same_graph h h' \<and>
         (\<forall>n \<in> set vs. grad (h' ! n) = (\<Sum>u \<in> set vs. grad (h ! u) * dpath h u n)) \<and>
         (\<forall>n. n \<notin> set vs \<longrightarrow> grad (h' ! n) = grad (h ! n))"
  using assms
proof (induction vs arbitrary: h)
  case Nil
  then show ?case by (simp add: same_graph_refl)
next
  case (Cons v vs)
  from Cons.prems(2) have v: "v < length h" "v \<notin> set vs" "set (prev (h ! v)) \<subseteq> set vs"
    and nr: "\<forall>u \<in> set vs. v \<notin> reach h u" and ok: "sched_ok h vs" by simp_all
  from Cons.prems(3) obtain h1 where h1: "call_backward h v = Inr h1"
    and run: "run_backward vs h1 = Inr h'"
    by (auto split: sum.splits)
  have wfv: "wf_node h v" using Cons.prems(1) v(1) by (simp add: wf_heap_def)
  from call_backward_effect[OF wfv v(1) h1]
  have sg: "same_graph h h1" and g1: "\<And>u. grad (h1 ! u) = grad (h ! u) + contrib h v u"
    by simp_all
  have "wf_heap h1" using same_graph_wf_heap[OF sg] Cons.prems(1) by simp
  moreover have "sched_ok h1 vs" using same_graph_sched_ok[OF sg] ok by simp
  ultimately have IH: "same_graph h1 h'"
    "\<And>n. n \<in> set vs \<Longrightarrow> grad (h' ! n) = (\<Sum>u \<in> set vs. grad (h1 ! u) * dpath h1 u n)"
    "\<And>n. n \<notin> set vs \<Longrightarrow> grad (h' ! n) = grad (h1 ! n)"
    using Cons.IH[OF _ _ run] by simp_all
  have edges_in: "\<forall>(c, w) \<in> set (edges h v). c \<in> set vs"
    using wf_edges_less(2)[OF Cons.prems(1) v(1)] v(3) by auto
  have edges_ne: "\<And>c w. (c, w) \<in> set (edges h v) \<Longrightarrow> c \<noteq> v"
    using wf_edges_less(1)[OF Cons.prems(1) v(1)] by auto
  have A: "same_graph h h'" by (rule same_graph_trans[OF sg IH(1)])
  have B: "grad (h' ! n) = (\<Sum>u \<in> set (v # vs). grad (h ! u) * dpath h u n)"
    if n: "n \<in> set (v # vs)" for n
  proof (cases "n = v")
    case True
    have "grad (h' ! v) = grad (h ! v) + contrib h v v"
      using IH(3)[OF v(2)] g1 by simp
    also have "contrib h v v = 0" by (rule contrib_zero) (rule edges_ne)
    finally have 1: "grad (h' ! v) = grad (h ! v)" by simp
    have "(\<Sum>u \<in> set vs. grad (h ! u) * dpath h u v) = 0"
    proof (rule sum.neutral, rule ballI)
      fix u assume u: "u \<in> set vs"
      then have "v \<notin> reach h u" using nr by simp
      moreover have "u < length h" using sched_ok_valid[OF ok u] .
      ultimately have "dpath h u v = 0" using dpath_reach[OF Cons.prems(1)] by blast
      then show "grad (h ! u) * dpath h u v = 0" by simp
    qed
    then show ?thesis using 1 v(2) True by (simp add: dpath_self)
  next
    case False
    with n have nvs: "n \<in> set vs" by simp
    have "grad (h' ! n) = (\<Sum>u \<in> set vs. (grad (h ! u) + contrib h v u) * dpath h u n)"
      using IH(2)[OF nvs] g1 same_graph_dpath[OF sg] by simp
    also have "\<dots> = (\<Sum>u \<in> set vs. grad (h ! u) * dpath h u n) +
                     (\<Sum>u \<in> set vs. contrib h v u * dpath h u n)"
      by (simp add: distrib_right sum.distrib)
    also have "(\<Sum>u \<in> set vs. contrib h v u * dpath h u n) =
               (\<Sum>(c, w) \<leftarrow> edges h v. w * grad (h ! v) * dpath h c n)"
      unfolding contrib_def by (rule sum_contrib) (use edges_in in auto)
    also have "\<dots> = grad (h ! v) * (\<Sum>(c, w) \<leftarrow> edges h v. w * dpath h c n)"
      by (rule sum_list_factor)
    also have "(\<Sum>(c, w) \<leftarrow> edges h v. w * dpath h c n) = dpath h v n"
      using dpath_unfold[OF Cons.prems(1) v(1), of n] False by simp
    finally show ?thesis using v(2) by simp
  qed
  have C: "grad (h' ! n) = grad (h ! n)" if n: "n \<notin> set (v # vs)" for n
  proof -
    from n have "n \<notin> set vs" by simp
    then have "grad (h' ! n) = grad (h ! n) + contrib h v n" using IH(3) g1 by simp
    moreover have "contrib h v n = 0"
      by (rule contrib_zero) (use edges_in \<open>n \<notin> set vs\<close> in auto)
    ultimately show ?thesis by simp
  qed
  from A B C show ?case by blast
qed

lemma run_backward_frame:
  assumes "wf_heap h" "\<forall>v \<in> set vs. v < length h \<and> n \<notin> set (prev (h ! v))"
  shows "same_graph h (final_heap (run_backward vs h)) \<and>
         grad (final_heap (run_backward vs h) ! n) = grad (h ! n)"
  using assms
proof (induction vs arbitrary: h)
  case Nil
  show ?case by (simp add: final_heap_def same_graph_refl)
next
  case (Cons v vs)
  show ?case
  proof (cases "call_backward h v")
    case (Inl e)
    then show ?thesis by (simp add: final_heap_def same_graph_refl)
  next
    case (Inr h1)
    from Cons.prems have v: "v < length h" "n \<notin> set (prev (h ! v))" by simp_all
    have wfv: "wf_node h v" using Cons.prems(1) v(1) by (simp add: wf_heap_def)
    from call_backward_effect[OF wfv v(1) Inr]
    have sg: "same_graph h h1" and g1: "grad (h1 ! n) = grad (h ! n) + contrib h v n"
      by simp_all
    have "contrib h v n = 0"
      by (rule contrib_zero) (use wf_edges_less(2)[OF Cons.prems(1) v(1)] v(2) in auto)
    with g1 have g: "grad (h1 ! n) = grad (h ! n)" by simp
    have "wf_heap h1" using same_graph_wf_heap[OF sg] Cons.prems(1) by simp
    moreover have "\<forall>v \<in> set vs. v < length h1 \<and> n \<notin> set (prev (h1 ! v))"
      using Cons.prems(2) sg by (simp add: same_graph_def)
    ultimately have "same_graph h1 (final_heap (run_backward vs h1)) \<and>
         grad (final_heap (run_backward vs h1) ! n) = grad (h1 ! n)"
      by (rule Cons.IH)
    then show ?thesis using Inr g sg by (auto intro: same_graph_trans)
  qed
qed

lemma run_backward_defined:
  assumes "wf_heap h" "\<forall>v \<in> set vs. v < length h \<and> rule_defined h v"
  shows "\<exists>h'. run_backward vs h = Inr h'"
  using assms
proof (induction vs arbitrary: h)
  case Nil
  show ?case by simp
next
  case (Cons v vs)
  then obtain h1 where h1: "call_backward h v = Inr h1"
    using call_backward_defined[of h v] by auto
  have wfv: "wf_node h v" using Cons.prems by (simp add: wf_heap_def)
  from call_backward_effect[OF wfv _ h1] Cons.prems have sg: "same_graph h h1" by simp
  have "wf_heap h1" using same_graph_wf_heap[OF sg] Cons.prems(1) by simp
  moreover have "\<forall>v \<in> set vs. v < length h1 \<and> rule_defined h1 v"
    using Cons.prems(2) same_graph_rule_defined[OF sg] sg by (simp add: same_graph_def)
  ultimately show ?case using Cons.IH h1 by simp
qed

lemma run_backward_raises:
  assumes "wf_heap h" "\<forall>v \<in> set vs. v < length h" "run_backward vs h = Inl (e, h')"
  shows "\<exists>v \<in> set vs. \<not> rule_defined h v"
proof (rule ccontr)
  assume "\<not> (\<exists>v \<in> set vs. \<not> rule_defined h v)"
  then have "\<forall>v \<in> set vs. v < length h \<and> rule_defined h v" using assms(2) by blast
  from run_backward_defined[OF assms(1) this] assms(3) show False by simp
qed

section \<open>The depth-first traversal\<close>

lemma post_order_closed:
  assumes "post_order h xs"
  shows "closed h (set xs)"
  unfolding closed_def
proof (intro ballI impI)
  fix v assume "v \<in> set xs"
  then obtain i where i: "i < length xs" "xs ! i = v" by (auto simp: in_set_conv_nth)
  with assms have "set (prev (h ! v)) \<subseteq> set (take i xs)" by (auto simp: post_order_def)
  also have "\<dots> \<subseteq> set xs" by (rule set_take_subset)
  finally show "set (prev (h ! v)) \<subseteq> set xs" .
qed

lemma post_order_snoc:
  assumes "post_order h xs" "set (prev (h ! v)) \<subseteq> set xs"
  shows "post_order h (xs @ [v])"
  unfolding post_order_def
proof (intro allI impI)
  fix i assume "i < length (xs @ [v])"
  then consider "i < length xs" | "i = length xs" by fastforce
  then show "set (prev (h ! ((xs @ [v]) ! i))) \<subseteq> set (take i (xs @ [v]))"
  proof cases
    case 1
    then show ?thesis using assms(1) by (simp add: post_order_def nth_append)
  next
    case 2
    then show ?thesis using assms(2) by simp
  qed
qed

lemma post_order_Nil: "post_order h []"
  by (simp add: post_order_def)

lemma build_topo_inv:
  assumes wf: "wf_heap h"
  shows "v < length h \<Longrightarrow> v < limit \<Longrightarrow> distinct topo \<Longrightarrow> post_order h topo \<Longrightarrow>
         set topo \<subseteq> visited \<Longrightarrow> (\<forall>u \<in> visited. u \<le> v \<longrightarrow> u \<in> set topo) \<Longrightarrow>
         \<exists>ys. build_topo limit h v (visited, topo) = Some (visited \<union> reach h v, topo @ ys) \<and>
              set (topo @ ys) = set topo \<union> reach h v \<and>
              distinct (topo @ ys) \<and> post_order h (topo @ ys)"
proof (induction limit arbitrary: v visited topo)
  case 0
  then show ?case by simp
next
  case (Suc f)
  have inner: "\<exists>ys. for_each (build_topo f h) cs (vis, tp) =
                  Some (vis \<union> (\<Union>c \<in> set cs. reach h c), tp @ ys) \<and>
              set (tp @ ys) = set tp \<union> (\<Union>c \<in> set cs. reach h c) \<and>
              distinct (tp @ ys) \<and> post_order h (tp @ ys)"
    if "\<forall>c \<in> set cs. c < v \<and> c < length h" "distinct tp" "post_order h tp"
       "set tp \<subseteq> vis" "\<forall>u \<in> vis. u < v \<longrightarrow> u \<in> set tp"
    for cs vis tp
    using that
  proof (induction cs arbitrary: vis tp)
    case Nil
    then show ?case by simp
  next
    case (Cons c cs)
    from Cons.prems(1) have c: "c < v" "c < length h" by simp_all
    with Suc.prems(2) have cf: "c < f" by simp
    have "\<forall>u \<in> vis. u \<le> c \<longrightarrow> u \<in> set tp" using Cons.prems(5) c(1) by auto
    from Suc.IH[OF c(2) cf Cons.prems(2,3,4) this]
    obtain ys1 where 1: "build_topo f h c (vis, tp) = Some (vis \<union> reach h c, tp @ ys1)"
      "set (tp @ ys1) = set tp \<union> reach h c" "distinct (tp @ ys1)" "post_order h (tp @ ys1)"
      by (elim exE conjE)
    have p1: "\<forall>c \<in> set cs. c < v \<and> c < length h" using Cons.prems(1) by simp
    have p4: "set (tp @ ys1) \<subseteq> vis \<union> reach h c" using 1(2) Cons.prems(4) by auto
    have p5: "\<forall>u \<in> vis \<union> reach h c. u < v \<longrightarrow> u \<in> set (tp @ ys1)"
      using 1(2) Cons.prems(5) by auto
    obtain ys2 where 2:
      "for_each (build_topo f h) cs (vis \<union> reach h c, tp @ ys1) =
         Some (vis \<union> reach h c \<union> (\<Union>c \<in> set cs. reach h c), (tp @ ys1) @ ys2)"
      "set ((tp @ ys1) @ ys2) = set (tp @ ys1) \<union> (\<Union>c \<in> set cs. reach h c)"
      "distinct ((tp @ ys1) @ ys2)" "post_order h ((tp @ ys1) @ ys2)"
      using Cons.IH[OF p1 1(3,4) p4 p5] by (elim exE conjE)
    have "for_each (build_topo f h) (c # cs) (vis, tp) =
            Some (vis \<union> (\<Union>c \<in> set (c # cs). reach h c), tp @ (ys1 @ ys2))"
      using 1(1) 2(1) by (simp add: Un_assoc)
    moreover have "set (tp @ (ys1 @ ys2)) = set tp \<union> (\<Union>c \<in> set (c # cs). reach h c)"
      using 1(2) 2(2) by auto
    ultimately show ?case using 2(3,4) by (intro exI[of _ "ys1 @ ys2"]) simp
  qed
  show ?case
  proof (cases "v \<in> visited")
    case True
    with Suc.prems(6) have "v \<in> set topo" by simp
    then have "reach h v \<subseteq> set topo"
      using closed_reach[OF post_order_closed[OF Suc.prems(4)]] by blast
    then have "visited \<union> reach h v = visited" "set topo \<union> reach h v = set topo"
      using Suc.prems(5) by auto
    then show ?thesis using True Suc.prems(3,4) by (intro exI[of _ "[]"]) simp
  next
    case False
    have q1: "\<forall>c \<in> set (prev (h ! v)). c < v \<and> c < length h"
    proof
      fix c assume "c \<in> set (prev (h ! v))"
      then have "c < v" by (rule wf_prev_less[OF wf Suc.prems(1)])
      with Suc.prems(1) show "c < v \<and> c < length h" by simp
    qed
    have q4: "set topo \<subseteq> insert v visited" using Suc.prems(5) by auto
    have q5: "\<forall>u \<in> insert v visited. u < v \<longrightarrow> u \<in> set topo"
      using Suc.prems(6) by auto
    obtain ys where ys:
      "for_each (build_topo f h) (prev (h ! v)) (insert v visited, topo) =
         Some (insert v visited \<union> (\<Union>c \<in> set (prev (h ! v)). reach h c), topo @ ys)"
      "set (topo @ ys) = set topo \<union> (\<Union>c \<in> set (prev (h ! v)). reach h c)"
      "distinct (topo @ ys)" "post_order h (topo @ ys)"
      using inner[OF q1 Suc.prems(3,4) q4 q5] by (elim exE conjE)
    have R: "reach h v = insert v (\<Union>c \<in> set (prev (h ! v)). reach h c)"
      using reach_unfold[of h v] Suc.prems(1) by simp
    have notin: "v \<notin> set (topo @ ys)"
    proof
      assume "v \<in> set (topo @ ys)"
      with ys(2) consider "v \<in> set topo" | c where "c \<in> set (prev (h ! v))" "v \<in> reach h c"
        by auto
      then show False
      proof cases
        case 1
        with Suc.prems(5) False show False by auto
      next
        case 2
        then have "v \<le> c" "c < v"
          using reach_le[OF wf] wf_prev_less[OF wf Suc.prems(1)] by blast+
        then show False by simp
      qed
    qed
    have sub: "set (prev (h ! v)) \<subseteq> set (topo @ ys)"
      using ys(2) reach_refl by fastforce
    have "build_topo (Suc f) h v (visited, topo) =
            Some (visited \<union> reach h v, topo @ (ys @ [v]))"
      using False ys(1) R by simp
    moreover have "set (topo @ (ys @ [v])) = set topo \<union> reach h v"
      using ys(2) R by auto
    moreover have "distinct (topo @ (ys @ [v]))" using ys(3) notin by simp
    moreover have "post_order h (topo @ (ys @ [v]))"
      using post_order_snoc[OF ys(4) sub] by simp
    ultimately show ?thesis by (intro exI[of _ "ys @ [v]"]) simp
  qed
qed

lemma build_topo_root:
  assumes "wf_heap h" "rt < length h" "rt < limit"
  shows "\<exists>topo. build_topo limit h rt ({}, []) = Some (reach h rt, topo) \<and>
           set topo = reach h rt \<and> distinct topo \<and> post_order h topo"
  using build_topo_inv[OF assms(1,2,3), of "[]" "{}"]
  by (simp add: post_order_Nil)

section \<open>The backward pass\<close>

lemma for_each_mono:
  assumes "\<And>x s r. f x s = Some r \<Longrightarrow> g x s = Some r"
  shows "for_each f xs s = Some r \<Longrightarrow> for_each g xs s = Some r"
proof (induction xs arbitrary: s)
  case Nil
  then show ?case by simp
next
  case (Cons x xs)
  then obtain s1 where s1: "f x s = Some s1" "for_each f xs s1 = Some r"
    by (auto split: option.splits)
  from assms[OF s1(1)] Cons.IH[OF s1(2)] show ?case by simp
qed

lemma build_topo_mono:
  "build_topo limit h v st = Some r \<Longrightarrow> limit \<le> limit' \<Longrightarrow> build_topo limit' h v st = Some r"
proof (induction limit arbitrary: limit' v st r)
  case 0
  then show ?case by simp
next
  case (Suc f)
  from Suc.prems(2) obtain f' where f': "limit' = Suc f'" "f \<le> f'"
    by (cases limit') auto
  obtain visited topo where st: "st = (visited, topo)" by (cases st)
  show ?case
  proof (cases "v \<in> visited")
    case True
    with Suc.prems(1) show ?thesis by (auto simp: st f')
  next
    case False
    with Suc.prems(1) obtain vis' tp' where
      1: "for_each (build_topo f h) (prev (h ! v)) (insert v visited, topo) = Some (vis', tp')"
      and r: "r = (vis', tp' @ [v])"
      by (auto simp: st split: option.splits)
    have "for_each (build_topo f' h) (prev (h ! v)) (insert v visited, topo) = Some (vis', tp')"
      by (rule for_each_mono[OF _ 1]) (rule Suc.IH[OF _ f'(2)])
    with False show ?thesis by (simp add: st f' r)
  qed
qed

lemma build_topo_result:
  assumes "wf_heap h" "rt < length h" "build_topo limit h rt ({}, []) = Some (visited, topo)"
  shows "visited = reach h rt \<and> set topo = reach h rt \<and> distinct topo \<and> post_order h topo"
proof -
  have "rt < max limit (Suc rt)" by simp
  from build_topo_root[OF assms(1,2) this]
  obtain tp where tp: "build_topo (max limit (Suc rt)) h rt ({}, []) = Some (reach h rt, tp)"
    "set tp = reach h rt" "distinct tp" "post_order h tp" by auto
  from build_topo_mono[OF assms(3), of "max limit (Suc rt)"] tp(1)
  have "visited = reach h rt" "topo = tp" by simp_all
  with tp show ?thesis by simp
qed

lemma post_order_prefix: "post_order h (xs @ ys) \<Longrightarrow> post_order h xs"
  unfolding post_order_def
proof (intro allI impI)
  fix i assume a: "\<forall>i<length (xs @ ys). set (prev (h ! ((xs @ ys) ! i))) \<subseteq> set (take i (xs @ ys))"
    and i: "i < length xs"
  from a[rule_format, of i] i show "set (prev (h ! (xs ! i))) \<subseteq> set (take i xs)"
    by (simp add: nth_append)
qed

lemma sched_ok_rev:
  assumes "wf_heap h"
  shows "distinct xs \<Longrightarrow> post_order h xs \<Longrightarrow> \<forall>v \<in> set xs. v < length h \<Longrightarrow> sched_ok h (rev xs)"
proof (induction xs rule: rev_induct)
  case Nil
  show ?case by simp
next
  case (snoc v xs)
  have po: "post_order h xs" by (rule post_order_prefix[OF snoc.prems(2)])
  have "set (prev (h ! v)) \<subseteq> set xs"
    using snoc.prems(2)[unfolded post_order_def, rule_format, of "length xs"] by simp
  moreover have "\<forall>u \<in> set xs. v \<notin> reach h u"
    using closed_reach[OF post_order_closed[OF po]] snoc.prems(1) by auto
  moreover have "sched_ok h (rev xs)" using snoc.IH po snoc.prems(1,3) by simp
  ultimately show ?case using snoc.prems(1,3) by simp
qed

lemma reach_valid:
  assumes "wf_heap h" "rt < length h" "n \<in> reach h rt"
  shows "n < length h"
  using reach_le[OF assms(1,3)] assms(2) by simp

lemma finite_reach: "wf_heap h \<Longrightarrow> finite (reach h rt)"
  by (rule finite_subset[of _ "{..rt}"]) (auto dest: reach_le)

lemma set_grad_one_same: "same_graph h (set_grad_one h rt)"
  by (cases "rt < length h") (auto simp: same_graph_def set_grad_one_def nth_list_update list_update_beyond)

lemma set_grad_one_grad:
  "rt < length h \<Longrightarrow> grad (set_grad_one h rt ! u) = (if u = rt then 1 else grad (h ! u))"
  by (simp add: set_grad_one_def nth_list_update)

lemma backward_unfold:
  assumes "wf_heap h" "rt < length h" "rt < limit"
  shows "\<exists>topo. set topo = reach h rt \<and> distinct topo \<and> post_order h topo \<and>
           sched_ok (set_grad_one h rt) (rev topo) \<and>
           build_topo limit h rt ({}, []) = Some (reach h rt, topo) \<and>
           backward limit h rt = run_backward (rev topo) (set_grad_one h rt)"
proof -
  from build_topo_root[OF assms] obtain topo where
    t: "build_topo limit h rt ({}, []) = Some (reach h rt, topo)"
    "set topo = reach h rt" "distinct topo" "post_order h topo" by auto
  have "\<forall>v \<in> set topo. v < length h" using t(2) reach_valid[OF assms(1,2)] by auto
  then have "sched_ok h (rev topo)" using sched_ok_rev[OF assms(1) t(3,4)] by simp
  then have "sched_ok (set_grad_one h rt) (rev topo)"
    using same_graph_sched_ok[OF set_grad_one_same] by simp
  moreover have "backward limit h rt = run_backward (rev topo) (set_grad_one h rt)"
    using t(1) by (simp add: backward_def set_grad_one_def)
  ultimately show ?thesis using t by blast
qed

lemma backward_sum:
  assumes "wf_heap h" "rt < length h" "backward limit h rt = Inr h'"
  shows "same_graph h h' \<and>
         (\<forall>n \<in> reach h rt. grad (h' ! n) =
            (\<Sum>u \<in> reach h rt. (if u = rt then 1 else grad (h ! u)) * dpath h u n)) \<and>
         (\<forall>n. n \<notin> reach h rt \<longrightarrow> grad (h' ! n) = grad (h ! n))"
proof -
  from assms(3) obtain visited topo where
    bt: "build_topo limit h rt ({}, []) = Some (visited, topo)"
    and run: "run_backward (rev topo) (set_grad_one h rt) = Inr h'"
    by (auto simp: backward_def set_grad_one_def split: option.splits)
  from build_topo_result[OF assms(1,2) bt]
  have t: "set topo = reach h rt" "distinct topo" "post_order h topo" by simp_all
  let ?h0 = "set_grad_one h rt"
  have sg0: "same_graph h ?h0" by (rule set_grad_one_same)
  have wf0: "wf_heap ?h0" using same_graph_wf_heap[OF sg0] assms(1) by simp
  have "\<forall>v \<in> set topo. v < length h" using t(1) reach_valid[OF assms(1,2)] by auto
  then have "sched_ok h (rev topo)" using sched_ok_rev[OF assms(1) t(2,3)] by simp
  then have ok: "sched_ok ?h0 (rev topo)" using same_graph_sched_ok[OF sg0] by simp
  from run_backward_sum[OF wf0 ok run]
  have 1: "same_graph ?h0 h'"
    and 2: "\<And>n. n \<in> reach h rt \<Longrightarrow>
              grad (h' ! n) = (\<Sum>u \<in> reach h rt. grad (?h0 ! u) * dpath ?h0 u n)"
    and 3: "\<And>n. n \<notin> reach h rt \<Longrightarrow> grad (h' ! n) = grad (?h0 ! n)"
    using t(1) by simp_all
  have A: "same_graph h h'" by (rule same_graph_trans[OF sg0 1])
  have B: "grad (h' ! n) = (\<Sum>u \<in> reach h rt. (if u = rt then 1 else grad (h ! u)) * dpath h u n)"
    if "n \<in> reach h rt" for n
    using 2[OF that] by (simp add: same_graph_dpath[OF sg0] set_grad_one_grad[OF assms(2)])
  have C: "grad (h' ! n) = grad (h ! n)" if "n \<notin> reach h rt" for n
  proof -
    from that have "n \<noteq> rt" using reach_refl by metis
    then show ?thesis using 3[OF that] by (simp add: set_grad_one_grad[OF assms(2)])
  qed
  from A B C show ?thesis by blast
qed

lemma backward_returns:
  assumes "wf_heap h" "rt < length h" "rt < limit" "\<forall>v \<in> reach h rt. rule_defined h v"
  shows "\<exists>h'. backward limit h rt = Inr h'"
proof -
  from backward_unfold[OF assms(1,2,3)] obtain topo where
    t: "set topo = reach h rt"
    "backward limit h rt = run_backward (rev topo) (set_grad_one h rt)" by blast
  let ?h0 = "set_grad_one h rt"
  have sg0: "same_graph h ?h0" by (rule set_grad_one_same)
  have wf0: "wf_heap ?h0" using same_graph_wf_heap[OF sg0] assms(1) by simp
  have "\<forall>v \<in> set (rev topo). v < length ?h0 \<and> rule_defined ?h0 v"
    using t(1) assms(4) reach_valid[OF assms(1,2)] same_graph_rule_defined[OF sg0] sg0
    by (simp add: same_graph_def)
  from run_backward_defined[OF wf0 this] t(2) show ?thesis by simp
qed

lemma ex_square_eq:
  "ex_square = [\<lparr>data = 3, grad = 0, prev = [], bw = NoOp\<rparr>,
                \<lparr>data = 9, grad = 0, prev = [0], bw = MulBw 0 0 1\<rparr>]"
  by (simp add: ex_square_def Value_mul_def promote_def Value_init_def set_backward_def py_set_def)

lemma ex_square_extra_eq:
  "ex_square_extra = [\<lparr>data = 3, grad = 0, prev = [], bw = NoOp\<rparr>,
                \<lparr>data = 9, grad = 0, prev = [0], bw = MulBw 0 0 1\<rparr>,
                \<lparr>data = 7, grad = 0, prev = [], bw = NoOp\<rparr>]"
  by (simp add: ex_square_extra_def ex_square_eq Value_init_def py_set_def)

lemma wf_ex_square: "wf_heap ex_square"
  by (simp add: wf_heap_def ex_square_eq wf_node_def All_less_Suc)

lemma wf_ex_square_extra: "wf_heap ex_square_extra"
  by (simp add: wf_heap_def ex_square_extra_eq wf_node_def All_less_Suc)

section \<open>Traversal order and frame\<close>

lemma post_order_index:
  assumes "post_order h xs" "i < length xs" "c \<in> set (prev (h ! (xs ! i)))"
  shows "\<exists>j < i. xs ! j = c"
proof -
  from assms have "c \<in> set (take i xs)" by (auto simp: post_order_def)
  then obtain j where "j < length (take i xs)" "take i xs ! j = c"
    by (auto simp: in_set_conv_nth)
  then have "j < i" "xs ! j = c" by simp_all
  then show ?thesis by blast
qed

lemma post_order_rev_index:
  assumes "post_order h xs" "i < length xs" "c \<in> set (prev (h ! (rev xs ! i)))"
  shows "\<exists>j < length xs. i < j \<and> rev xs ! j = c"
proof -
  let ?k = "length xs - Suc i"
  from assms(2) have k: "?k < length xs" "rev xs ! i = xs ! ?k" by (simp_all add: rev_nth)
  with assms(1,3) obtain j where j: "j < ?k" "xs ! j = c"
    using post_order_index[of h xs ?k c] by auto
  let ?j' = "length xs - Suc j"
  from j(1) k(1) have "?j' < length xs" "i < ?j'" "length xs - Suc ?j' = j" by auto
  then have "rev xs ! ?j' = c" using j(2) by (simp add: rev_nth)
  with \<open>?j' < length xs\<close> \<open>i < ?j'\<close> show ?thesis by blast
qed


text \<open>
  Claim C9. A node with no path from the root along the predecessor relation is not
  visited by the traversal, and its \<open>grad\<close> is the same after the call as before,
  whether the call returns or raises.
\<close>

theorem backward_frame:
  assumes "wf_heap h" "rt < length h" "n \<notin> reach h rt"
  shows "grad (final_heap (backward limit h rt) ! n) = grad (h ! n) \<and>
         (\<forall>visited topo. build_topo limit h rt ({}, []) = Some (visited, topo) \<longrightarrow>
            n \<notin> visited \<and> n \<notin> set topo)"
proof (cases "build_topo limit h rt ({}, [])")
  case None
  then show ?thesis by (simp add: backward_def final_heap_def)
next
  case (Some st)
  obtain visited topo where st: "st = (visited, topo)" by (cases st)
  from build_topo_result[OF assms(1,2) Some[unfolded st]]
  have t: "visited = reach h rt" "set topo = reach h rt" by simp_all
  let ?h0 = "set_grad_one h rt"
  have sg0: "same_graph h ?h0" by (rule set_grad_one_same)
  have wf0: "wf_heap ?h0" using same_graph_wf_heap[OF sg0] assms(1) by simp
  have b: "backward limit h rt = run_backward (rev topo) ?h0"
    using Some by (simp add: backward_def st set_grad_one_def)
  have "\<forall>v \<in> set (rev topo). v < length ?h0 \<and> n \<notin> set (prev (?h0 ! v))"
  proof
    fix v assume "v \<in> set (rev topo)"
    then have v: "v \<in> reach h rt" using t(2) by simp
    then have vl: "v < length h" by (rule reach_valid[OF assms(1,2)])
    have "n \<notin> set (prev (h ! v))" using reach_step[OF v vl] assms(3) by blast
    then show "v < length ?h0 \<and> n \<notin> set (prev (?h0 ! v))"
      using vl sg0 by (simp add: same_graph_def)
  qed
  from run_backward_frame[OF wf0 this]
  have "grad (final_heap (backward limit h rt) ! n) = grad (?h0 ! n)" by (simp add: b)
  moreover have "n \<noteq> rt" using assms(3) reach_refl by metis
  ultimately have "grad (final_heap (backward limit h rt) ! n) = grad (h ! n)"
    by (simp add: set_grad_one_grad[OF assms(2)])
  then show ?thesis using Some st t assms(3) by simp
qed

theorem backward_frame_witness:
  "grad (final_heap (backward 5 ex_square_extra 1) ! 2) = 0 \<and>
   build_topo 5 ex_square_extra 1 ({}, []) = Some ({0, 1}, [0, 1]) \<and>
   2 \<notin> reach ex_square_extra 1"
proof -
  have l: "(1::nat) < length ex_square_extra" by (simp add: ex_square_extra_eq)
  have n: "2 \<notin> reach ex_square_extra 1"
    using reach_le[OF wf_ex_square_extra, of 2 1] by auto
  have b: "build_topo 5 ex_square_extra 1 ({}, []) = Some ({0, 1}, [0, 1])"
    by (simp add: ex_square_extra_eq eval_nat_numeral insert_commute)
  from backward_frame[OF wf_ex_square_extra l n, of 5] b n
  show ?thesis by (simp add: ex_square_extra_eq)
qed

section \<open>Squaring a node\<close>

lemma wf_node_append:
  "i < length h \<Longrightarrow> wf_node (h @ xs) i = wf_node h i"
  by (simp add: wf_node_def nth_append split: closure.splits)

lemma wf_heap_snoc:
  assumes "wf_heap h" "wf_node (h @ [x]) (length h)"
  shows "wf_heap (h @ [x])"
  unfolding wf_heap_def
proof (intro allI impI)
  fix i assume "i < length (h @ [x])"
  then consider "i < length h" | "i = length h" by fastforce
  then show "wf_node (h @ [x]) i"
  proof cases
    case 1
    then show ?thesis using assms(1) by (simp add: wf_node_append wf_heap_def)
  next
    case 2
    then show ?thesis using assms(2) by simp
  qed
qed

lemma Value_mul_Node:
  "Value_mul a (Node b) h =
     (length h, h @ [\<lparr>data = data (h ! a) * data (h ! b), grad = 0,
                      prev = py_set [a, b], bw = MulBw a b (length h)\<rparr>])"
  by (simp add: Value_mul_def promote_def Value_init_def set_backward_def)

lemma Value_add_Node:
  "Value_add a (Node b) h =
     (length h, h @ [\<lparr>data = data (h ! a) + data (h ! b), grad = 0,
                      prev = py_set [a, b], bw = AddBw a b (length h)\<rparr>])"
  by (simp add: Value_add_def promote_def Value_init_def set_backward_def)

lemma wf_Value_mul_Node:
  assumes "wf_heap h" "a < length h" "b < length h"
  shows "wf_heap (snd (Value_mul a (Node b) h))"
  unfolding Value_mul_Node snd_conv
  by (rule wf_heap_snoc[OF assms(1)]) (use assms(2,3) in \<open>auto simp: wf_node_def py_set_def\<close>)

lemma sched_ok_head:
  assumes "sched_ok h (x # rest)" "rt \<in> set (x # rest)" "x \<in> reach h rt"
  shows "x = rt"
  using assms by auto

text \<open>
  Claim C3. For a node \<open>a\<close> whose \<open>grad\<close> is zero, \<open>backward\<close> on \<open>a * a\<close> leaves
  \<open>a.grad = 2 * a.data\<close>: both uses of \<open>a\<close> contribute, although \<open>a\<close> is listed once among
  the predecessors. This is the store the call leaves, also when a closure further down
  raises.
\<close>

theorem square_gradient:
  assumes "wf_heap h" "a < length h" "grad (h ! a) = 0"
    and "Value_mul a (Node a) h = (out, h1)" "out < limit"
  shows "grad (final_heap (backward limit h1 out) ! a) = 2 * data (h ! a)"
proof -
  from assms(4) have out: "out = length h"
    and h1: "h1 = h @ [\<lparr>data = data (h ! a) * data (h ! a), grad = 0,
                         prev = [a], bw = MulBw a a (length h)\<rparr>]"
    by (auto simp: Value_mul_Node py_set_def)
  have wf1: "wf_heap h1"
    using wf_Value_mul_Node[OF assms(1,2,2)] assms(4) by simp
  have l1: "out < length h1" by (simp add: h1 out)
  have a1: "a < length h1" "a \<noteq> out" using assms(2) by (simp_all add: h1 out)
  have node_out: "bw (h1 ! out) = MulBw a a out" "prev (h1 ! out) = [a]"
    by (simp_all add: h1 out)
  have node_a: "grad (h1 ! a) = 0" "data (h1 ! a) = data (h ! a)"
    using assms(2,3) by (simp_all add: h1 nth_append)
  let ?h0 = "set_grad_one h1 out"
  have sg0: "same_graph h1 ?h0" by (rule set_grad_one_same)
  have wf0: "wf_heap ?h0" using same_graph_wf_heap[OF sg0] wf1 by simp
  from backward_unfold[OF wf1 l1 assms(5)] obtain topo where
    t: "set topo = reach h1 out" "sched_ok ?h0 (rev topo)"
    "backward limit h1 out = run_backward (rev topo) ?h0" by blast
  have "out \<in> set topo" using t(1) reach_refl by simp
  then obtain x rest where xr: "rev topo = x # rest" by (cases "rev topo") auto
  have sx: "set (x # rest) = reach h1 out" using t(1) xr by (metis set_rev)
  then have "x \<in> reach h1 out" by auto
  then have "x \<in> reach ?h0 out" using same_graph_reach[OF sg0, of out] by simp
  moreover have "out \<in> set (x # rest)" using sx reach_refl by blast
  ultimately have x: "x = out"
    using t(2)[unfolded xr] by (intro sched_ok_head)
  have ok: "out \<notin> set rest" "set rest \<subseteq> reach h1 out"
    using t(2)[unfolded xr] sx x by auto
  have wfn: "wf_node ?h0 out" using wf0 l1 sg0 by (simp add: wf_heap_def same_graph_def)
  have l0: "out < length ?h0" using l1 sg0 by (simp add: same_graph_def)
  have "rule_defined ?h0 out"
    using node_out(1) sg0 by (simp add: rule_defined_def same_graph_def)
  then obtain h2 where h2: "call_backward ?h0 out = Inr h2"
    using call_backward_defined by blast
  from call_backward_effect[OF wfn l0 h2]
  have sg2: "same_graph ?h0 h2" and g2: "grad (h2 ! a) = grad (?h0 ! a) + contrib ?h0 out a"
    by simp_all
  have e: "edges ?h0 out = [(a, data (h ! a)), (a, data (h ! a))]"
    using same_graph_edges[OF sg0, of out] node_out(1) node_a(2) by (simp add: edges_def)
  have "grad (?h0 ! out) = 1" "grad (?h0 ! a) = 0"
    using a1(2) node_a(1) by (simp_all add: set_grad_one_grad[OF l1])
  with g2 e have ga: "grad (h2 ! a) = 2 * data (h ! a)" by (simp add: contrib_def)
  have sg12: "same_graph h1 h2" by (rule same_graph_trans[OF sg0 sg2])
  have wf2: "wf_heap h2" using same_graph_wf_heap[OF sg12] wf1 by simp
  have R: "reach h1 out = insert out (reach h1 a)"
    using reach_unfold[of h1 out] l1 node_out(2) by simp
  have "\<forall>v \<in> set rest. v < length h2 \<and> a \<notin> set (prev (h2 ! v))"
  proof
    fix v assume v: "v \<in> set rest"
    with ok R have va: "v \<in> reach h1 a" by auto
    then have "v \<le> a" by (rule reach_le[OF wf1])
    have vl: "v < length h1" using reach_valid[OF wf1 a1(1) va] .
    have "a \<notin> set (prev (h1 ! v))"
      using wf_prev_less[OF wf1 vl, of a] \<open>v \<le> a\<close> by auto
    then show "v < length h2 \<and> a \<notin> set (prev (h2 ! v))"
      using vl sg12 by (simp add: same_graph_def)
  qed
  from run_backward_frame[OF wf2 this]
  have "grad (final_heap (run_backward rest h2) ! a) = grad (h2 ! a)" by simp
  moreover have "final_heap (backward limit h1 out) = final_heap (run_backward rest h2)"
    using t(3) xr x h2 by simp
  ultimately show ?thesis using ga by simp
qed

theorem square_gradient_witness:
  "Value_mul 0 (Node 0) (snd (Value_init 3 [] [])) = (1, ex_square) \<and>
   grad (final_heap (backward 5 ex_square 1) ! 0) = 2 * 3"
proof -
  have h: "snd (Value_init 3 [] []) = [\<lparr>data = 3, grad = 0, prev = [], bw = NoOp\<rparr>]"
    by (simp add: Value_init_def py_set_def)
  have w: "wf_heap (snd (Value_init 3 [] []))"
    by (simp add: h wf_heap_def wf_node_def)
  have m: "Value_mul 0 (Node 0) (snd (Value_init 3 [] [])) = (1, ex_square)"
    by (simp add: h ex_square_eq Value_mul_Node py_set_def)
  from square_gradient[OF w _ _ m, of 5] m show ?thesis by (simp add: h)
qed

section \<open>Calling backward twice\<close>

lemma ex_chain_eq:
  "ex_chain =
     [\<lparr>data = 2, grad = 0, prev = [], bw = NoOp\<rparr>,
      \<lparr>data = 1, grad = 0, prev = [], bw = NoOp\<rparr>,
      \<lparr>data = 2, grad = 0, prev = [0, 1], bw = MulBw 0 1 2\<rparr>,
      \<lparr>data = 1, grad = 0, prev = [], bw = NoOp\<rparr>,
      \<lparr>data = 2, grad = 0, prev = [2, 3], bw = MulBw 2 3 4\<rparr>]"
  by (simp add: ex_chain_def Value_mul_def promote_def Value_init_def set_backward_def py_set_def)

lemma wf_ex_chain: "wf_heap ex_chain"
  by (simp add: wf_heap_def ex_chain_eq wf_node_def All_less_Suc eval_nat_numeral)

lemma ex_chain_backward_once: "backward 9 ex_chain 4 = Inr ex_chain_once"
  by (simp add: backward_def ex_chain_eq ex_chain_once_def call_backward_def add_grad_def
      eval_nat_numeral)

lemma ex_chain_backward_twice: "backward 9 ex_chain_once 4 = Inr ex_chain_twice"
  by (simp add: backward_def ex_chain_once_def ex_chain_twice_def call_backward_def add_grad_def
      eval_nat_numeral)

text \<open>
  Doubling fails two edges below the root. In \<open>(a * 1) * 1\<close> a first \<open>backward\<close> leaves
  \<open>a.grad = 1\<close>, a second one without zeroing leaves \<open>a.grad = 3\<close>, and the root's
  \<open>grad\<close> is 1 after both.
\<close>

theorem double_backward_counterexample:
  "backward 9 ex_chain 4 = Inr ex_chain_once \<and>
   backward 9 ex_chain_once 4 = Inr ex_chain_twice \<and>
   grad (ex_chain ! 0) = 0 \<and> grad (ex_chain_once ! 0) = 1 \<and> grad (ex_chain_twice ! 0) = 3 \<and>
   grad (ex_chain_twice ! 0) \<noteq> 2 * grad (ex_chain_once ! 0) \<and>
   grad (ex_chain_once ! 4) = 1 \<and> grad (ex_chain_twice ! 4) = 1"
  by (simp add: ex_chain_backward_once ex_chain_backward_twice)
     (simp add: ex_chain_eq ex_chain_once_def ex_chain_twice_def)

lemma call_backward_Inr_defined:
  "call_backward h v = Inr h' \<Longrightarrow> rule_defined h v"
  by (cases "bw (h ! v)") (auto simp: call_backward_def rule_defined_def split: sum.splits)

lemma run_backward_Inr_defined:
  assumes "wf_heap h" "\<forall>v \<in> set vs. v < length h" "run_backward vs h = Inr h'"
  shows "\<forall>v \<in> set vs. rule_defined h v"
  using assms
proof (induction vs arbitrary: h)
  case Nil
  show ?case by simp
next
  case (Cons v vs)
  from Cons.prems(3) obtain h1 where h1: "call_backward h v = Inr h1"
    and run: "run_backward vs h1 = Inr h'"
    by (auto split: sum.splits)
  have wfv: "wf_node h v" using Cons.prems(1,2) by (simp add: wf_heap_def)
  from call_backward_effect[OF wfv _ h1] Cons.prems(2) have sg: "same_graph h h1" by simp
  have "wf_heap h1" using same_graph_wf_heap[OF sg] Cons.prems(1) by simp
  moreover have "\<forall>v \<in> set vs. v < length h1" using Cons.prems(2) sg by (simp add: same_graph_def)
  ultimately have "\<forall>v \<in> set vs. rule_defined h1 v" using Cons.IH run by blast
  then have "\<forall>v \<in> set vs. rule_defined h v" using same_graph_rule_defined[OF sg] by simp
  with call_backward_Inr_defined[OF h1] show ?case by simp
qed

lemma backward_Inr_defined:
  assumes "wf_heap h" "rt < length h" "backward limit h rt = Inr h'"
  shows "\<forall>v \<in> reach h rt. rule_defined h v"
proof -
  from assms(3) obtain visited topo where
    bt: "build_topo limit h rt ({}, []) = Some (visited, topo)"
    and run: "run_backward (rev topo) (set_grad_one h rt) = Inr h'"
    by (auto simp: backward_def set_grad_one_def split: option.splits)
  from build_topo_result[OF assms(1,2) bt] have t: "set topo = reach h rt" by simp
  let ?h0 = "set_grad_one h rt"
  have sg0: "same_graph h ?h0" by (rule set_grad_one_same)
  have wf0: "wf_heap ?h0" using same_graph_wf_heap[OF sg0] assms(1) by simp
  have "\<forall>v \<in> set (rev topo). v < length ?h0"
    using t reach_valid[OF assms(1,2)] sg0 by (simp add: same_graph_def)
  from run_backward_Inr_defined[OF wf0 this run]
  show ?thesis using t same_graph_rule_defined[OF sg0] by simp
qed

lemma backward_from_zero:
  assumes "wf_heap h" "rt < length h" "\<forall>n \<in> reach h rt. grad (h ! n) = 0"
    and "backward limit h rt = Inr h'" "n \<in> reach h rt"
  shows "grad (h' ! n) = dpath h rt n"
proof -
  from backward_sum[OF assms(1,2,4)] assms(5)
  have "grad (h' ! n) = (\<Sum>u \<in> reach h rt. (if u = rt then 1 else grad (h ! u)) * dpath h u n)"
    by blast
  also have "\<dots> = (\<Sum>u \<in> reach h rt. if u = rt then dpath h rt n else 0)"
    by (rule sum.cong) (use assms(3) in auto)
  also have "\<dots> = dpath h rt n"
    using finite_reach[OF assms(1)] reach_refl[of rt h] by (simp add: sum.delta)
  finally show ?thesis .
qed

lemma reach_last_step:
  assumes "n \<in> reach h u" "n \<noteq> u"
  shows "\<exists>p \<in> reach h u. p < length h \<and> n \<in> set (prev (h ! p))"
proof -
  from assms(1) have "(u, n) \<in> (pred_rel h)\<^sup>*" by (simp add: reach_def)
  then show ?thesis
  proof (cases rule: rtranclE)
    case base
    with assms(2) show ?thesis by simp
  next
    case (step p)
    then show ?thesis by (auto simp: reach_def pred_rel_def)
  qed
qed

text \<open>
  Claim C5, as the code has it. After a first \<open>backward\<close> from zero gradients, a second
  \<open>backward\<close> on the same root without zeroing returns as well. It sets the root's
  \<open>grad\<close> to 1 again, and leaves on every reachable node \<open>n\<close> the sum over the reachable
  nodes \<open>u\<close> of (\<open>grad\<close> of \<open>u\<close> after the first call) times (path sum from \<open>u\<close> to \<open>n\<close>).
  This is double the first value for a node other than the root that only the root
  uses.
\<close>

theorem double_backward:
  assumes "wf_heap h" "rt < length h" "rt < limit" "\<forall>n \<in> reach h rt. grad (h ! n) = 0"
    and "backward limit h rt = Inr h1"
  shows "(\<exists>h2. backward limit h1 rt = Inr h2) \<and>
         (\<forall>h2. backward limit h1 rt = Inr h2 \<longrightarrow>
            grad (h1 ! rt) = 1 \<and> grad (h2 ! rt) = 1 \<and>
            (\<forall>n \<in> reach h rt.
               grad (h2 ! n) = (\<Sum>u \<in> reach h rt. grad (h1 ! u) * dpath h u n)) \<and>
            (\<forall>n \<in> reach h rt.
               n \<noteq> rt \<and> (\<forall>u \<in> reach h rt. n \<in> set (prev (h ! u)) \<longrightarrow> u = rt) \<longrightarrow>
               grad (h2 ! n) = 2 * grad (h1 ! n)))"
proof -
  let ?R = "reach h rt"
  from backward_sum[OF assms(1,2,5)] have sg1: "same_graph h h1" by simp
  have wf1: "wf_heap h1" using same_graph_wf_heap[OF sg1] assms(1) by simp
  have l1: "rt < length h1" using assms(2) sg1 by (simp add: same_graph_def)
  have R1: "reach h1 rt = ?R" by (rule same_graph_reach[OF sg1])
  have g1: "grad (h1 ! n) = dpath h rt n" if "n \<in> ?R" for n
    by (rule backward_from_zero[OF assms(1,2,4,5) that])
  have g1rt: "grad (h1 ! rt) = 1" using g1[OF reach_refl] by (simp add: dpath_self)
  have fin: "finite ?R" by (rule finite_reach[OF assms(1)])
  have "\<forall>v \<in> reach h1 rt. rule_defined h1 v"
    using backward_Inr_defined[OF assms(1,2,5)] same_graph_rule_defined[OF sg1] R1 by simp
  from backward_returns[OF wf1 l1 assms(3) this]
  have ex: "\<exists>h2. backward limit h1 rt = Inr h2" .
  have main: "grad (h1 ! rt) = 1 \<and> grad (h2 ! rt) = 1 \<and>
            (\<forall>n \<in> ?R. grad (h2 ! n) = (\<Sum>u \<in> ?R. grad (h1 ! u) * dpath h u n)) \<and>
            (\<forall>n \<in> ?R. n \<noteq> rt \<and> (\<forall>u \<in> ?R. n \<in> set (prev (h ! u)) \<longrightarrow> u = rt) \<longrightarrow>
               grad (h2 ! n) = 2 * grad (h1 ! n))"
    if b2: "backward limit h1 rt = Inr h2" for h2
  proof -
    have S: "grad (h2 ! n) = (\<Sum>u \<in> ?R. grad (h1 ! u) * dpath h u n)" if n: "n \<in> ?R" for n
    proof -
      from backward_sum[OF wf1 l1 b2] n R1
      have "grad (h2 ! n) =
              (\<Sum>u \<in> ?R. (if u = rt then 1 else grad (h1 ! u)) * dpath h1 u n)"
        by simp
      also have "\<dots> = (\<Sum>u \<in> ?R. grad (h1 ! u) * dpath h u n)"
        by (rule sum.cong) (auto simp: g1rt same_graph_dpath[OF sg1])
      finally show ?thesis .
    qed
    have rt2: "grad (h2 ! rt) = 1"
    proof -
      have "grad (h2 ! rt) = (\<Sum>u \<in> ?R. grad (h1 ! u) * dpath h u rt)"
        by (rule S[OF reach_refl])
      also have "\<dots> = (\<Sum>u \<in> ?R. if u = rt then 1 else 0)"
      proof (rule sum.cong[OF refl])
        fix u assume u: "u \<in> ?R"
        show "grad (h1 ! u) * dpath h u rt = (if u = rt then 1 else 0)"
        proof (cases "u = rt")
          case True
          then show ?thesis by (simp add: g1rt dpath_self)
        next
          case False
          with reach_le[OF assms(1) u] have "u < rt" by simp
          then show ?thesis using False by (simp add: dpath_above)
        qed
      qed
      also have "\<dots> = 1" using fin reach_refl[of rt h] by (simp add: sum.delta)
      finally show ?thesis .
    qed
    have D: "grad (h2 ! n) = 2 * grad (h1 ! n)"
      if n: "n \<in> ?R" "n \<noteq> rt" and only: "\<forall>u \<in> ?R. n \<in> set (prev (h ! u)) \<longrightarrow> u = rt" for n
    proof -
      have zero: "grad (h1 ! u) * dpath h u n = 0" if u: "u \<in> ?R - {rt, n}" for u
      proof (rule ccontr)
        assume "grad (h1 ! u) * dpath h u n \<noteq> 0"
        then have nz: "dpath h u n \<noteq> 0" by simp
        from u have uR: "u \<in> ?R" "u \<noteq> rt" "u \<noteq> n" by simp_all
        have ul: "u < length h" by (rule reach_valid[OF assms(1,2) uR(1)])
        from dpath_reach[OF assms(1) ul nz] have "n \<in> reach h u" .
        from reach_last_step[OF this] uR(3) obtain p where
          p: "p \<in> reach h u" "p < length h" "n \<in> set (prev (h ! p))" by auto
        have "p \<in> ?R" by (rule reach_trans[OF uR(1) p(1)])
        with only p(3) have "p = rt" by blast
        with p(1) have "rt \<le> u" using reach_le[OF assms(1)] by blast
        moreover have "u \<le> rt" by (rule reach_le[OF assms(1) uR(1)])
        ultimately show False using uR(2) by simp
      qed
      have "grad (h2 ! n) = (\<Sum>u \<in> ?R. grad (h1 ! u) * dpath h u n)" by (rule S[OF n(1)])
      also have "\<dots> = (\<Sum>u \<in> {rt, n}. grad (h1 ! u) * dpath h u n)"
        by (rule sum.mono_neutral_right[OF fin]) (use n(1) reach_refl zero in auto)
      also have "\<dots> = grad (h1 ! rt) * dpath h rt n + grad (h1 ! n) * dpath h n n"
        using n(2) by simp
      also have "\<dots> = 2 * grad (h1 ! n)"
        using g1[OF n(1)] by (simp add: g1rt dpath_self)
      finally show ?thesis .
    qed
    from g1rt rt2 S D show ?thesis by blast
  qed
  from ex main show ?thesis by blast
qed

theorem double_backward_witness:
  "backward 9 ex_chain_once 4 = Inr ex_chain_twice \<and>
   grad (ex_chain_twice ! 4) = 1 \<and>
   grad (ex_chain_twice ! 2) = 2 * grad (ex_chain_once ! 2) \<and>
   2 \<in> reach ex_chain 4"
proof -
  have l: "(4::nat) < length ex_chain" by (simp add: ex_chain_eq)
  have z: "\<forall>n \<in> reach ex_chain 4. grad (ex_chain ! n) = 0"
  proof
    fix n assume "n \<in> reach ex_chain 4"
    then have "n < length ex_chain" by (rule reach_valid[OF wf_ex_chain l])
    then have "n < 5" by (simp add: ex_chain_eq)
    then have "n = 0 \<or> n = 1 \<or> n = 2 \<or> n = 3 \<or> n = 4" by auto
    then show "grad (ex_chain ! n) = 0" by (auto simp: ex_chain_eq)
  qed
  have r2: "2 \<in> reach ex_chain 4"
    by (rule reach_step[OF reach_refl l]) (simp add: ex_chain_eq)
  have only: "\<forall>u \<in> reach ex_chain 4. 2 \<in> set (prev (ex_chain ! u)) \<longrightarrow> u = 4"
  proof
    fix u assume "u \<in> reach ex_chain 4"
    then have "u < length ex_chain" by (rule reach_valid[OF wf_ex_chain l])
    then have "u < 5" by (simp add: ex_chain_eq)
    then have "u = 0 \<or> u = 1 \<or> u = 2 \<or> u = 3 \<or> u = 4" by auto
    then show "2 \<in> set (prev (ex_chain ! u)) \<longrightarrow> u = 4" by (auto simp: ex_chain_eq)
  qed
  from double_backward[OF wf_ex_chain l _ z ex_chain_backward_once]
    ex_chain_backward_twice r2 only
  show ?thesis by auto
qed

section \<open>The operators\<close>





lemma Value_mul_Num:
  assumes "a < length h"
  shows "Value_mul a (Num c) h =
     (Suc (length h),
      h @ [\<lparr>data = c, grad = 0, prev = [], bw = NoOp\<rparr>,
           \<lparr>data = data (h ! a) * c, grad = 0, prev = [a, length h],
             bw = MulBw a (length h) (Suc (length h))\<rparr>])"
  using assms
  by (simp add: Value_mul_def promote_def Value_init_def set_backward_def py_set_def nth_append)

lemma Value_pow_Num:
  "Value_pow a (Num k) h =
     (case py_pow (data (h ! a)) k of
        Inl e \<Rightarrow> Inl e
      | Inr d \<Rightarrow> Inr (length h, h @ [\<lparr>data = d, grad = 0, prev = [a], bw = PowBw a k (length h)\<rparr>]))"
  by (simp add: Value_pow_def Value_init_def set_backward_def py_set_def split: sum.splits)








section \<open>Predecessors of composed operators\<close>

lemma Value_sub_Node:
  assumes "a < length h" "b < length h"
  shows "Value_sub a (Node b) h =
     (Suc (Suc (length h)),
      h @ [leaf (- 1),
           \<lparr>data = data (h ! b) * - 1, grad = 0, prev = [b, length h],
             bw = MulBw b (length h) (Suc (length h))\<rparr>,
           \<lparr>data = data (h ! a) + data (h ! b) * - 1, grad = 0, prev = [a, Suc (length h)],
             bw = AddBw a (Suc (length h)) (Suc (Suc (length h)))\<rparr>])"
  using assms
  by (simp add: Value_sub_def py_neg_def Value_neg_def Value_mul_Num Value_add_Node
      py_set_def leaf_def nth_append)

text \<open>
  In \<open>a - b\<close> the second operand is not a predecessor of the result: the result is
  \<open>a + (b * -1)\<close>, over \<open>a\<close> and the product node.
\<close>

theorem predecessors_sub_counterexample:
  "fst (Value_sub 0 (Node 1) [leaf 5, leaf 3]) = 4 \<and>
   prev (snd (Value_sub 0 (Node 1) [leaf 5, leaf 3]) ! 4) = [0, 3] \<and>
   1 \<notin> set (prev (snd (Value_sub 0 (Node 1) [leaf 5, leaf 3]) ! 4))"
  by (simp add: Value_sub_Node)

text \<open>
  Claim C4, as the code has it. For node operands \<open>a\<close> and \<open>b\<close>, the node made by \<open>+\<close> or
  \<open>*\<close> has exactly \<open>a\<close> and \<open>b\<close> as predecessors, each listed once, and \<open>a\<close> once when the
  same node is passed twice. The node made by \<open>-\<close> has \<open>a\<close> and the intermediate node
  \<open>b * -1\<close> as predecessors, the node made by \<open>/\<close> has \<open>a\<close> and the intermediate node
  \<open>b ** -1\<close>; \<open>b\<close> itself is not among them unless it is \<open>a\<close>.
\<close>

theorem predecessors_of_operators:
  assumes "a < length h" "b < length h"
  shows "(f = Value_add \<or> f = Value_mul \<longrightarrow>
            set (prev (snd (f a (Node b) h) ! fst (f a (Node b) h))) = {a, b} \<and>
            distinct (prev (snd (f a (Node b) h) ! fst (f a (Node b) h))) \<and>
            count_list (prev (snd (f a (Node b) h) ! fst (f a (Node b) h))) a = 1 \<and>
            count_list (prev (snd (f a (Node b) h) ! fst (f a (Node b) h))) b = 1 \<and>
            (b = a \<longrightarrow> prev (snd (f a (Node b) h) ! fst (f a (Node b) h)) = [a])) \<and>
         (\<forall>out h'. Value_sub a (Node b) h = (out, h') \<longrightarrow>
            prev (h' ! out) = [a, Suc (length h)] \<and>
            bw (h' ! Suc (length h)) = MulBw b (length h) (Suc (length h)) \<and>
            (b \<noteq> a \<longrightarrow> b \<notin> set (prev (h' ! out)))) \<and>
         (\<forall>out h'. Value_truediv a (Node b) h = Inr (out, h') \<longrightarrow>
            prev (h' ! out) = [a, length h] \<and>
            bw (h' ! length h) = PowBw b (- 1) (length h) \<and>
            (b \<noteq> a \<longrightarrow> b \<notin> set (prev (h' ! out))))"
proof (intro conjI impI allI)
  assume f: "f = Value_add \<or> f = Value_mul"
  have p: "prev (snd (f a (Node b) h) ! fst (f a (Node b) h)) = py_set [a, b]"
    using f by (auto simp: Value_add_Node Value_mul_Node)
  show "set (prev (snd (f a (Node b) h) ! fst (f a (Node b) h))) = {a, b}"
    "distinct (prev (snd (f a (Node b) h) ! fst (f a (Node b) h)))"
    "count_list (prev (snd (f a (Node b) h) ! fst (f a (Node b) h))) a = 1"
    "count_list (prev (snd (f a (Node b) h) ! fst (f a (Node b) h))) b = 1"
    unfolding p by (auto simp: py_set_def)
  show "prev (snd (f a (Node b) h) ! fst (f a (Node b) h)) = [a]" if "b = a"
    unfolding p using that by (simp add: py_set_def)
next
  fix out h' assume s: "Value_sub a (Node b) h = (out, h')"
  then have o: "out = Suc (Suc (length h))" and h': "h' = snd (Value_sub a (Node b) h)"
    by (auto simp: Value_sub_Node[OF assms])
  show "prev (h' ! out) = [a, Suc (length h)]"
    "bw (h' ! Suc (length h)) = MulBw b (length h) (Suc (length h))"
    unfolding o h' by (simp_all add: Value_sub_Node[OF assms] nth_append)
  show "b \<notin> set (prev (h' ! out))" if "b \<noteq> a"
    unfolding o h' using that assms(2) by (simp add: Value_sub_Node[OF assms] nth_append)
next
  fix out h' assume d: "Value_truediv a (Node b) h = Inr (out, h')"
  then obtain x where x: "py_pow (data (h ! b)) (- 1) = Inr x"
    by (auto simp: Value_truediv_def py_pow_op_def Value_pow_Num split: sum.splits)
  let ?h1 = "h @ [\<lparr>data = x, grad = 0, prev = [b], bw = PowBw b (- 1) (length h)\<rparr>]"
  have a1: "a < length ?h1" "length h < length ?h1" using assms(1) by simp_all
  from d x have e: "(out, h') = Value_mul a (Node (length h)) ?h1"
    by (simp add: Value_truediv_def py_pow_op_def Value_pow_Num)
  have o: "out = Suc (length h)" and h': "h' = snd (Value_mul a (Node (length h)) ?h1)"
    using e by (auto simp: Value_mul_Node)
  have an: "a \<noteq> length h" using assms(1) by simp
  show "prev (h' ! out) = [a, length h]" "bw (h' ! length h) = PowBw b (- 1) (length h)"
    unfolding o h' using an by (simp_all add: Value_mul_Node py_set_def nth_append)
  show "b \<notin> set (prev (h' ! out))" if "b \<noteq> a"
    unfolding o h' using an that assms(2) by (simp add: Value_mul_Node py_set_def nth_append)
qed

theorem predecessors_of_operators_witness:
  "prev (snd (Value_mul 0 (Node 0) [leaf 3]) ! fst (Value_mul 0 (Node 0) [leaf 3])) = [0] \<and>
   prev (snd (Value_sub 0 (Node 0) [leaf 3]) ! 3) = [0, 2]"
  using predecessors_of_operators[of 0 "[leaf 3]" 0 Value_mul]
  by (simp add: Value_sub_Node)

section \<open>The order in which the closures run\<close>

lemma ex_pow_zero_eq:
  "ex_pow_zero = [\<lparr>data = 0, grad = 0, prev = [], bw = NoOp\<rparr>,
                  \<lparr>data = 1, grad = 0, prev = [0], bw = PowBw 0 0 1\<rparr>]"
  by (simp add: ex_pow_zero_def Value_pow_Num py_pow_def leaf_def)

lemma run_backward_append:
  "run_backward (xs @ ys) h =
     (case run_backward xs h of Inl r \<Rightarrow> Inl r | Inr h1 \<Rightarrow> run_backward ys h1)"
  by (induction xs arbitrary: h) (auto split: sum.splits)

text \<open>
  The loop stops at a closure that raises. In \<open>Value(0.0) ** 0\<close> the node is made (the
  value is 1), its closure evaluates \<open>0 * 0.0 ** -1\<close> and raises, and the closure of the
  operand, next in the reversed sequence, is not called.
\<close>

theorem closures_run_counterexample:
  "Value_pow 0 (Num 0) [leaf 0] = Inr (1, ex_pow_zero) \<and>
   build_topo 5 ex_pow_zero 1 ({}, []) = Some ({0, 1}, [0, 1]) \<and>
   call_backward (ex_pow_zero[1 := (ex_pow_zero ! 1)\<lparr>grad := 1\<rparr>]) 1 = Inl ZeroDivisionError \<and>
   backward 5 ex_pow_zero 1 =
     Inl (ZeroDivisionError, ex_pow_zero[1 := (ex_pow_zero ! 1)\<lparr>grad := 1\<rparr>])"
  by (simp add: ex_pow_zero_eq Value_pow_Num py_pow_def leaf_def backward_def
      call_backward_def eval_nat_numeral insert_commute)

text \<open>
  Claim C2, as the code has it. For a graph built by the operators and a recursion
  limit above the root's depth bound, the sequence \<open>topo\<close> built by \<open>backward\<close> holds
  exactly the nodes reachable from the root, each once, every node after all of its
  predecessors. The closures are called along the reversed sequence, where every node
  comes before its predecessors: the closure of a node is called once, on the store left
  by the closures of the nodes before it, if all of those returned; if one of them
  raised, the call of \<open>backward\<close> ended there and the later closures are not called.
  When no power rule raises, every closure is called and \<open>backward\<close> returns.
\<close>

theorem build_topo_post_order:
  assumes "wf_heap h" "rt < length h" "rt < limit"
  shows "\<exists>topo. build_topo limit h rt ({}, []) = Some (reach h rt, topo) \<and>
           set topo = reach h rt \<and> distinct topo \<and>
           (\<forall>i < length topo. \<forall>c \<in> set (prev (h ! (topo ! i))). \<exists>j < i. topo ! j = c) \<and>
           (\<forall>i < length topo. \<forall>c \<in> set (prev (h ! (rev topo ! i))).
              \<exists>j < length topo. i < j \<and> rev topo ! j = c) \<and>
           (\<forall>xs v ys. rev topo = xs @ v # ys \<longrightarrow>
              (case run_backward xs (h[rt := (h ! rt)\<lparr>grad := 1\<rparr>]) of
                 Inl r \<Rightarrow> backward limit h rt = Inl r
               | Inr h1 \<Rightarrow>
                   backward limit h rt =
                     (case call_backward h1 v of
                        Inl e \<Rightarrow> Inl (e, h1)
                      | Inr h2 \<Rightarrow> run_backward ys h2))) \<and>
           ((\<forall>v \<in> reach h rt. rule_defined h v) \<longrightarrow> (\<exists>h'. backward limit h rt = Inr h'))"
proof -
  from build_topo_root[OF assms] obtain topo where
    t: "build_topo limit h rt ({}, []) = Some (reach h rt, topo)"
    "set topo = reach h rt" "distinct topo" "post_order h topo" by auto
  let ?h0 = "h[rt := (h ! rt)\<lparr>grad := 1\<rparr>]"
  have b: "backward limit h rt = run_backward (rev topo) ?h0"
    using t(1) by (simp add: backward_def)
  have 1: "\<forall>i < length topo. \<forall>c \<in> set (prev (h ! (topo ! i))). \<exists>j < i. topo ! j = c"
    using post_order_index[OF t(4)] by blast
  have 2: "\<forall>i < length topo. \<forall>c \<in> set (prev (h ! (rev topo ! i))).
              \<exists>j < length topo. i < j \<and> rev topo ! j = c"
    using post_order_rev_index[OF t(4)] by blast
  have 3: "\<forall>xs v ys. rev topo = xs @ v # ys \<longrightarrow>
              (case run_backward xs ?h0 of
                 Inl r \<Rightarrow> backward limit h rt = Inl r
               | Inr h1 \<Rightarrow>
                   backward limit h rt =
                     (case call_backward h1 v of
                        Inl e \<Rightarrow> Inl (e, h1)
                      | Inr h2 \<Rightarrow> run_backward ys h2))"
  proof (intro allI impI)
    fix xs v ys assume "rev topo = xs @ v # ys"
    then have "backward limit h rt = run_backward (xs @ v # ys) ?h0" using b by simp
    then show "case run_backward xs ?h0 of
                 Inl r \<Rightarrow> backward limit h rt = Inl r
               | Inr h1 \<Rightarrow>
                   backward limit h rt =
                     (case call_backward h1 v of
                        Inl e \<Rightarrow> Inl (e, h1)
                      | Inr h2 \<Rightarrow> run_backward ys h2)"
      by (simp add: run_backward_append split: sum.splits)
  qed
  have 4: "(\<forall>v \<in> reach h rt. rule_defined h v) \<longrightarrow> (\<exists>h'. backward limit h rt = Inr h')"
    using backward_returns[OF assms] by blast
  from t(1,2,3) 1 2 3 4 show ?thesis by (intro exI[of _ topo]) simp
qed

theorem build_topo_post_order_witness:
  "build_topo 5 ex_square 1 ({}, []) = Some ({0, 1}, [0, 1]) \<and> reach ex_square 1 = {0, 1}"
proof -
  have l: "(1::nat) < length ex_square" by (simp add: ex_square_eq)
  have b: "build_topo 5 ex_square 1 ({}, []) = Some ({0, 1}, [0, 1])"
    by (simp add: ex_square_eq eval_nat_numeral insert_commute)
  from build_topo_post_order[OF wf_ex_square l, of 5] b show ?thesis by auto
qed

section \<open>The gradient as a derivative\<close>


























end
